theory Spec2Isabelle
  imports Main
begin

section \<open>Values, errors and asynchronous calls\<close>

text \<open>
  The values the facade hands to its callers: raw strings as the store returns them, and
  what \<^verbatim>\<open>JSON.parse\<close> builds from them. Numbers are the integers.
\<close>

datatype jsval =
    JNull
  | JBool bool
  | JNum int
  | JStr string
  | JArr "jsval list"
  | JObj "(string \<times> jsval) list"

text \<open>
  \<^verbatim>\<open>class HttpError extends Error\<close> with its fields \<^verbatim>\<open>message\<close>, \<^verbatim>\<open>statusCode\<close> and
  \<^verbatim>\<open>error\<close> (the cause, \<^verbatim>\<open>undefined\<close> when the constructor gets two arguments). Every
  other exception (a rejection of the store client, a \<^verbatim>\<open>SyntaxError\<close> of
  \<^verbatim>\<open>JSON.parse\<close>, a \<^verbatim>\<open>ReferenceError\<close>) is an \<open>Error\<close> with its message. The test
  \<^verbatim>\<open>err instanceof HttpError\<close> is the discriminator \<open>is_HttpError\<close>.
\<close>

datatype exn =
    is_HttpError: HttpError (message: string) (statusCode: int) (cause: "exn option")
  | Error string

text \<open>
  An \<^verbatim>\<open>async\<close> method takes the state of the store and returns the new state together
  with either the exception it rejects with (\<open>Inl\<close>) or the value it resolves to.
\<close>

type_synonym ('a, 's) async = "'s \<Rightarrow> (exn + 'a) \<times> 's"

definition resolve :: "'a \<Rightarrow> ('a, 's) async" where
  "resolve v = (\<lambda>\<sigma>. (Inr v, \<sigma>))"

definition throw :: "exn \<Rightarrow> ('a, 's) async" where
  "throw e = (\<lambda>\<sigma>. (Inl e, \<sigma>))"

definition await :: "('a, 's) async \<Rightarrow> ('a \<Rightarrow> ('b, 's) async) \<Rightarrow> ('b, 's) async" where
  "await m f = (\<lambda>\<sigma>. case m \<sigma> of (Inl e, \<sigma>') \<Rightarrow> (Inl e, \<sigma>') | (Inr v, \<sigma>') \<Rightarrow> f v \<sigma>')"

definition try_catch :: "('a, 's) async \<Rightarrow> (exn \<Rightarrow> ('a, 's) async) \<Rightarrow> ('a, 's) async" where
  "try_catch body handler =
     (\<lambda>\<sigma>. case body \<sigma> of (Inl e, \<sigma>') \<Rightarrow> handler e \<sigma>' | (Inr v, \<sigma>') \<Rightarrow> (Inr v, \<sigma>'))"

text \<open>
  A command of the store client either rejects (\<open>Inl\<close>, with the message of an error that
  is never an \<^verbatim>\<open>HttpError\<close>: the class is private to the module) or replies.
\<close>

type_synonym ('a, 's) command = "'s \<Rightarrow> (string + 'a) \<times> 's"

definition call :: "('a, 's) command \<Rightarrow> ('a, 's) async" where
  "call cmd = (\<lambda>\<sigma>. case cmd \<sigma> of (Inl msg, \<sigma>') \<Rightarrow> (Inl (Error msg), \<sigma>')
                              | (Inr reply, \<sigma>') \<Rightarrow> (Inr reply, \<sigma>'))"

text \<open>
  \<^verbatim>\<open>Promise.all(keys.map(f))\<close>: every member issues its one store command when the array
  is built, in the order of the array, whether or not another member fails; the store
  answers the commands of one connection in the order it received them. \<open>settle\<close> runs
  the members in that order and keeps each outcome; \<open>join\<close> rejects with the first
  rejection, and otherwise resolves to the values in the order of the members.
\<close>

fun settle :: "('a, 's) async list \<Rightarrow> 's \<Rightarrow> (exn + 'a) list \<times> 's" where
  "settle [] \<sigma> = ([], \<sigma>)"
| "settle (p # ps) \<sigma> =
     (case p \<sigma> of (r, \<sigma>1) \<Rightarrow> (case settle ps \<sigma>1 of (rs, \<sigma>2) \<Rightarrow> (r # rs, \<sigma>2)))"

fun join :: "(exn + 'a) list \<Rightarrow> exn + 'a list" where
  "join [] = Inr []"
| "join (Inl e # rs) = Inl e"
| "join (Inr v # rs) = (case join rs of Inl e \<Rightarrow> Inl e | Inr vs \<Rightarrow> Inr (v # vs))"

definition Promise_all :: "('a, 's) async list \<Rightarrow> ('a list, 's) async" where
  "Promise_all ps = (\<lambda>\<sigma>. case settle ps \<sigma> of (rs, \<sigma>') \<Rightarrow> (join rs, \<sigma>'))"

section \<open>The store client and the facade\<close>

text \<open>
  The commands of the \<^verbatim>\<open>redis\<close> client that the modelled methods call, over a state
  \<open>'s\<close> of the store. The client is not part of the repository: it is a parameter.
  \<^verbatim>\<open>get\<close> replies \<^verbatim>\<open>null\<close> (\<open>None\<close>) or a string, \<^verbatim>\<open>hGetAll\<close> replies \<^verbatim>\<open>null\<close> or an
  object of string fields, \<^verbatim>\<open>set\<close> takes the option \<^verbatim>\<open>{ EX: ttl }\<close> or \<^verbatim>\<open>undefined\<close>.
\<close>

record 's redis_client =
  c_set :: "string \<Rightarrow> string \<Rightarrow> int option \<Rightarrow> (unit, 's) command"
  c_get :: "string \<Rightarrow> (string option, 's) command"
  c_del :: "string \<Rightarrow> (int, 's) command"
  c_lRange :: "string \<Rightarrow> int \<Rightarrow> int \<Rightarrow> (string list, 's) command"
  c_keys :: "string \<Rightarrow> (string list, 's) command"
  c_hGetAll :: "string \<Rightarrow> ((string \<times> string) list option, 's) command"
  c_expire :: "string \<Rightarrow> int \<Rightarrow> (int, 's) command"
  c_type :: "string \<Rightarrow> (string, 's) command"
  c_ttl :: "string \<Rightarrow> (int, 's) command"

text \<open>
  An instance of \<^verbatim>\<open>class ElastiCache\<close>: its client and its \<^verbatim>\<open>dev\<close> flag. \<^verbatim>\<open>JSON.stringify\<close>
  and \<^verbatim>\<open>JSON.parse\<close> are built-ins of the host language, taken as parameters of the
  instance; \<open>None\<close> is the exception they throw. The \<^verbatim>\<open>console\<close> calls guarded by
  \<^verbatim>\<open>dev\<close> only print and are left out, except the one whose argument cannot be
  evaluated (in \<^verbatim>\<open>hashGetAll\<close>).
\<close>

record 's ElastiCache =
  client :: "'s redis_client"
  dev :: bool
  JSON_stringify :: "jsval \<Rightarrow> string option"
  JSON_parse :: "string \<Rightarrow> jsval option"

definition stringify :: "'s ElastiCache \<Rightarrow> jsval \<Rightarrow> (string, 's) async" where
  "stringify ec v =
     (case JSON_stringify ec v of None \<Rightarrow> throw (Error ''TypeError'') | Some s \<Rightarrow> resolve s)"

definition parse_json :: "'s ElastiCache \<Rightarrow> string \<Rightarrow> (jsval, 's) async" where
  "parse_json ec s =
     (case JSON_parse ec s of None \<Rightarrow> throw (Error ''SyntaxError'') | Some v \<Rightarrow> resolve v)"

text \<open>\<^verbatim>\<open>values.map((v) => JSON.parse(v))\<close>: the first text that does not parse throws.\<close>

fun parse_each :: "'s ElastiCache \<Rightarrow> string list \<Rightarrow> (jsval list, 's) async" where
  "parse_each ec [] = resolve []"
| "parse_each ec (v # vs) =
     await (parse_json ec v) (\<lambda>x. await (parse_each ec vs) (\<lambda>xs. resolve (x # xs)))"

text \<open>\<^verbatim>\<open>Object.entries(value).map(([k, v]) => [k, JSON.parse(v)])\<close>, then \<^verbatim>\<open>Object.fromEntries\<close>.\<close>

fun parse_entries :: "'s ElastiCache \<Rightarrow> (string \<times> string) list \<Rightarrow> ((string \<times> jsval) list, 's) async" where
  "parse_entries ec [] = resolve []"
| "parse_entries ec ((k, v) # kvs) =
     await (parse_json ec v) (\<lambda>x. await (parse_entries ec kvs) (\<lambda>xs. resolve ((k, x) # xs)))"

section \<open>Primitive operations\<close>

text \<open>\<^verbatim>\<open>async set(key, value, ttl = null)\<close>; \<^verbatim>\<open>ttl ? { EX: ttl } : undefined\<close>.\<close>

definition set_redis :: "'s ElastiCache \<Rightarrow> string \<Rightarrow> jsval \<Rightarrow> int option \<Rightarrow> (unit, 's) async" where
  "set_redis ec key v ttl =
     try_catch
       (let options = (case ttl of None \<Rightarrow> None | Some t \<Rightarrow> if t = 0 then None else Some t)
        in await (stringify ec v) (\<lambda>s.
           await (call (c_set (client ec) key s options)) (\<lambda>_. resolve ())))
       (\<lambda>err. throw (HttpError ''Error saving to Redis'' 500 None))"

text \<open>\<^verbatim>\<open>async get(key, parse = false)\<close>.\<close>

definition get :: "'s ElastiCache \<Rightarrow> string \<Rightarrow> bool \<Rightarrow> (jsval, 's) async" where
  "get ec key parse =
     try_catch
       (await (call (c_get (client ec) key)) (\<lambda>reply.
          case reply of
            None \<Rightarrow> throw (HttpError ''Key not found'' 404 None)
          | Some s \<Rightarrow> if parse then parse_json ec s else resolve (JStr s)))
       (\<lambda>err. if is_HttpError err then throw err
              else throw (HttpError ''Error fetching from Redis'' 500 None))"

text \<open>\<^verbatim>\<open>async delete(key)\<close>.\<close>

definition delete :: "'s ElastiCache \<Rightarrow> string \<Rightarrow> (unit, 's) async" where
  "delete ec key =
     try_catch
       (await (call (c_del (client ec) key)) (\<lambda>result.
          if result = 0 then throw (HttpError ''Key not found'' 404 None) else resolve ()))
       (\<lambda>err. if is_HttpError err then throw err
              else throw (HttpError ''Error deleting from Redis'' 500 None))"

text \<open>
  \<^verbatim>\<open>async listGet(key, start = 0, end = -1, parse = false)\<close>. Its \<^verbatim>\<open>catch\<close> has no
  \<^verbatim>\<open>instanceof\<close> test: whatever the body throws becomes the 500 error.
\<close>

definition listGet :: "'s ElastiCache \<Rightarrow> string \<Rightarrow> int \<Rightarrow> int \<Rightarrow> bool \<Rightarrow> (jsval list, 's) async" where
  "listGet ec key start end' parse =
     try_catch
       (await (call (c_lRange (client ec) key start end')) (\<lambda>vals.
          if length vals = 0 then throw (HttpError ''List is empty'' 404 None)
          else if parse then parse_each ec vals else resolve (map JStr vals)))
       (\<lambda>err. throw (HttpError ''Error fetching from Redis list'' 500 None))"

text \<open>
  \<^verbatim>\<open>async hashGetAll(key, parse = false)\<close>. In the \<^verbatim>\<open>null\<close> branch the logging statement
  reads \<^verbatim>\<open>field\<close>, which no scope declares: with \<^verbatim>\<open>dev\<close> set it throws a
  \<^verbatim>\<open>ReferenceError\<close> before the \<^verbatim>\<open>HttpError\<close> is built.
\<close>

definition hashGetAll :: "'s ElastiCache \<Rightarrow> string \<Rightarrow> bool \<Rightarrow> ((string \<times> jsval) list, 's) async" where
  "hashGetAll ec key parse =
     try_catch
       (await (call (c_hGetAll (client ec) key)) (\<lambda>reply.
          case reply of
            None \<Rightarrow> if dev ec then throw (Error ''ReferenceError: field is not defined'')
                    else throw (HttpError ''Field not found'' 404 None)
          | Some obj \<Rightarrow> if parse then parse_entries ec obj
                        else resolve (map (\<lambda>(k, v). (k, JStr v)) obj)))
       (\<lambda>error. if is_HttpError error then throw error
                else throw (HttpError ''Error finding the Redis hash'' 500 None))"

text \<open>
  \<^verbatim>\<open>async refreshKey(key, ttl)\<close>. Its \<^verbatim>\<open>catch\<close> rethrows an \<^verbatim>\<open>HttpError\<close> and has no
  other statement: any other exception ends there and the method resolves.
\<close>

definition refreshKey :: "'s ElastiCache \<Rightarrow> string \<Rightarrow> int \<Rightarrow> (unit, 's) async" where
  "refreshKey ec key ttl =
     try_catch
       (await (call (c_expire (client ec) key ttl)) (\<lambda>result.
          if result = 0 then throw (HttpError ''Key not found'' 404 None) else resolve ()))
       (\<lambda>error. if is_HttpError error then throw error else resolve ())"

text \<open>\<^verbatim>\<open>async getTimeToLive(key)\<close>.\<close>

definition getTimeToLive :: "'s ElastiCache \<Rightarrow> string \<Rightarrow> (int, 's) async" where
  "getTimeToLive ec key =
     try_catch
       (await (call (c_ttl (client ec) key)) (\<lambda>ttl.
          if ttl = - 2 then throw (HttpError ''Key not found'' 404 None) else resolve ttl))
       (\<lambda>err. if is_HttpError err then throw err
              else throw (HttpError ''Error fetching TTL from Redis'' 500 None))"

section \<open>Composite operations\<close>

text \<open>\<^verbatim>\<open>keys.map((key, index) => ({ [key]: values[index] }))\<close>.\<close>

definition pair_up :: "string list \<Rightarrow> jsval list \<Rightarrow> jsval list" where
  "pair_up keys vals =
     map (\<lambda>(index, key). JObj [(key, vals ! index)]) (enumerate 0 keys)"

text \<open>
  \<^verbatim>\<open>async getByPrefix(prefix)\<close>. \<^verbatim>\<open>Promise.all\<close> resolves to as many values as there are
  keys, so \<^verbatim>\<open>values[index]\<close> is always in range.
\<close>

definition getByPrefix :: "'s ElastiCache \<Rightarrow> string \<Rightarrow> (jsval list, 's) async" where
  "getByPrefix ec prefix =
     try_catch
       (await (call (c_keys (client ec) (prefix @ '':*''))) (\<lambda>keys.
          if length keys = 0 then throw (HttpError ''Index not found'' 404 None)
          else await (Promise_all (map (\<lambda>key. get ec key True) keys)) (\<lambda>vals.
                 resolve (pair_up keys vals))))
       (\<lambda>err. if is_HttpError err then throw err
              else throw (HttpError ''Error fetching keys by prefix'' 500 None))"

text \<open>The \<^verbatim>\<open>for (const key of keys)\<close> loop of \<^verbatim>\<open>getAll\<close>, with its array \<^verbatim>\<open>values\<close>.\<close>

fun getAll_loop :: "'s ElastiCache \<Rightarrow> string list \<Rightarrow> jsval list \<Rightarrow> (jsval list, 's) async" where
  "getAll_loop ec [] vals = resolve vals"
| "getAll_loop ec (key # keys) vals =
     await (call (c_type (client ec) key)) (\<lambda>ty.
       if ty = ''string'' then
         await (get ec key True) (\<lambda>v. getAll_loop ec keys (vals @ [JObj [(key, v)]]))
       else if ty = ''list'' then
         await (listGet ec key 0 (- 1) True) (\<lambda>v. getAll_loop ec keys (vals @ [JObj [(key, JArr v)]]))
       else if ty = ''hash'' then
         await (hashGetAll ec key True) (\<lambda>v. getAll_loop ec keys (vals @ [JObj [(key, JObj v)]]))
       else getAll_loop ec keys vals)"

text \<open>\<^verbatim>\<open>async getAll()\<close>.\<close>

definition getAll :: "'s ElastiCache \<Rightarrow> (jsval list, 's) async" where
  "getAll ec =
     try_catch
       (await (call (c_keys (client ec) ''*'')) (\<lambda>keys.
          if length keys = 0 then throw (HttpError ''No keys found'' 404 None)
          else getAll_loop ec keys []))
       (\<lambda>err. if is_HttpError err then throw err
              else throw (HttpError ''Error fetching all keys from Redis'' 500 None))"

text \<open>\<^verbatim>\<open>async deleteAll(pattern = '*')\<close>: \<open>None\<close> is the argument left out.\<close>

definition deleteAll :: "'s ElastiCache \<Rightarrow> string option \<Rightarrow> (unit, 's) async" where
  "deleteAll ec pattern =
     (let pattern = (case pattern of None \<Rightarrow> ''*'' | Some p \<Rightarrow> p) in
      try_catch
        (await (call (c_keys (client ec) pattern)) (\<lambda>keys.
           if length keys = 0 then throw (HttpError ''No keys found'' 404 None)
           else await (Promise_all (map (\<lambda>key. delete ec key) keys)) (\<lambda>_. resolve ())))
        (\<lambda>err. if is_HttpError err then throw err
               else throw (HttpError ''Error deleting all keys from Redis'' 500 None)))"

text \<open>
  The state of the store when the loop of \<^verbatim>\<open>getAll\<close> reaches the key of index \<open>i\<close> (the
  loop has run over the \<open>i\<close> keys before it), and the reply of the \<^verbatim>\<open>type\<close> query for that
  key together with the state the query leaves.
\<close>

definition getAll_state :: "'s ElastiCache \<Rightarrow> string list \<Rightarrow> 's \<Rightarrow> nat \<Rightarrow> 's" where
  "getAll_state ec keys \<sigma>1 i = snd (getAll_loop ec (take i keys) [] \<sigma>1)"

definition getAll_type ::
  "'s ElastiCache \<Rightarrow> string list \<Rightarrow> 's \<Rightarrow> nat \<Rightarrow> (string + string) \<times> 's" where
  "getAll_type ec keys \<sigma>1 i = c_type (client ec) (keys ! i) (getAll_state ec keys \<sigma>1 i)"

section \<open>A sample store and a sample codec\<close>

text \<open>
  A small in-memory store, on which the theorems below are instantiated: an association
  list from keys to scalar, list, hash and sorted-set entries, with the replies of the store's
  commands (an absent key reads as \<^verbatim>\<open>null\<close>, as the empty list or as the empty object;
  \<^verbatim>\<open>ttl\<close> replies \<open>-2\<close> for an absent key and \<open>-1\<close> for a key with no expiry; patterns
  are globs with \<^verbatim>\<open>*\<close>). It keeps no expiry times.
\<close>

datatype entry =
    Str string
  | Lst "string list"
  | Hsh "(string \<times> string) list"
  | Zst "string list"

type_synonym store = "(string \<times> entry) list"

fun glob_match :: "string \<Rightarrow> string \<Rightarrow> bool" where
  "glob_match [] s = (s = [])"
| "glob_match (p # ps) [] = (p = CHR ''*'' \<and> glob_match ps [])"
| "glob_match (p # ps) (c # cs) =
     (if p = CHR ''*'' then glob_match ps (c # cs) \<or> glob_match (p # ps) cs
      else p = c \<and> glob_match ps cs)"

definition drop_key :: "string \<Rightarrow> store \<Rightarrow> store" where
  "drop_key key \<sigma> = filter (\<lambda>(k, _). k \<noteq> key) \<sigma>"

definition list_range :: "string list \<Rightarrow> int \<Rightarrow> int \<Rightarrow> string list" where
  "list_range xs start stop =
     (let n = int (length xs);
          s = (if start < 0 then max 0 (n + start) else start);
          e = (if stop < 0 then n + stop else min stop (n - 1))
      in if s > e then [] else take (nat (e - s + 1)) (drop (nat s) xs))"

definition mem_client :: "store redis_client" where
  "mem_client = \<lparr>
     c_set = (\<lambda>key s opts \<sigma>. (Inr (), (key, Str s) # drop_key key \<sigma>)),
     c_get = (\<lambda>key \<sigma>. (case map_of \<sigma> key of
                None \<Rightarrow> Inr None
              | Some (Str s) \<Rightarrow> Inr (Some s)
              | Some _ \<Rightarrow> Inl ''WRONGTYPE'', \<sigma>)),
     c_del = (\<lambda>key \<sigma>. (case map_of \<sigma> key of
                None \<Rightarrow> (Inr 0, \<sigma>)
              | Some _ \<Rightarrow> (Inr 1, drop_key key \<sigma>))),
     c_lRange = (\<lambda>key start stop \<sigma>. (case map_of \<sigma> key of
                None \<Rightarrow> Inr []
              | Some (Lst xs) \<Rightarrow> Inr (list_range xs start stop)
              | Some _ \<Rightarrow> Inl ''WRONGTYPE'', \<sigma>)),
     c_keys = (\<lambda>pattern \<sigma>. (Inr (filter (glob_match pattern) (map fst \<sigma>)), \<sigma>)),
     c_hGetAll = (\<lambda>key \<sigma>. (case map_of \<sigma> key of
                None \<Rightarrow> Inr (Some [])
              | Some (Hsh h) \<Rightarrow> Inr (Some h)
              | Some _ \<Rightarrow> Inl ''WRONGTYPE'', \<sigma>)),
     c_expire = (\<lambda>key ttl \<sigma>. (case map_of \<sigma> key of
                None \<Rightarrow> Inr 0
              | Some _ \<Rightarrow> Inr 1, \<sigma>)),
     c_type = (\<lambda>key \<sigma>. (case map_of \<sigma> key of
                None \<Rightarrow> Inr ''none''
              | Some (Str _) \<Rightarrow> Inr ''string''
              | Some (Lst _) \<Rightarrow> Inr ''list''
              | Some (Hsh _) \<Rightarrow> Inr ''hash''
              | Some (Zst _) \<Rightarrow> Inr ''zset'', \<sigma>)),
     c_ttl = (\<lambda>key \<sigma>. (case map_of \<sigma> key of
                None \<Rightarrow> Inr (- 2)
              | Some _ \<Rightarrow> Inr (- 1), \<sigma>)) \<rparr>"

text \<open>The same store behind an enumeration that is out of date: \<^verbatim>\<open>keys\<close> replies \<open>ks\<close>.\<close>

definition stale_client :: "string list \<Rightarrow> store redis_client" where
  "stale_client ks = mem_client \<lparr> c_keys := (\<lambda>pattern \<sigma>. (Inr ks, \<sigma>)) \<rparr>"

text \<open>The same store behind a closed connection: \<^verbatim>\<open>expire\<close> rejects.\<close>

definition closed_client :: "store redis_client" where
  "closed_client = mem_client \<lparr> c_expire := (\<lambda>key ttl \<sigma>. (Inl ''The client is closed'', \<sigma>)) \<rparr>"

text \<open>
  A finite excerpt of the JSON codec: each pair is a text and the value it denotes. The
  sample \<^verbatim>\<open>JSON.parse\<close> rejects every other text, and the sample \<^verbatim>\<open>JSON.stringify\<close>
  every other value.
\<close>

definition sample_json :: "(string \<times> jsval) list" where
  \<open>sample_json =
     [(''null'', JNull),
      (''true'', JBool True),
      (''42'', JNum 42),
      (''"value1"'', JStr ''value1''),
      (''{"name":"John"}'', JObj [(''name'', JStr ''John'')]),
      (''{"name":"Alice"}'', JObj [(''name'', JStr ''Alice'')]),
      (''{"name":"Bob"}'', JObj [(''name'', JStr ''Bob'')])]\<close>

definition facade :: "store redis_client \<Rightarrow> store ElastiCache" where
  "facade c = \<lparr> client = c, dev = False,
     JSON_stringify = map_of (map (\<lambda>(s, v). (v, s)) sample_json),
     JSON_parse = map_of sample_json \<rparr>"

text \<open>Three states of the sample store.\<close>

definition users_store :: store where
  \<open>users_store =
     [(''users:1'', Str ''{"name":"Alice"}''),
      (''session'', Str ''42''),
      (''users:2'', Str ''{"name":"Bob"}'')]\<close>

definition mixed_store :: store where
  \<open>mixed_store =
     [(''user'', Str ''{"name":"John"}''),
      (''queue'', Lst [''42'', ''true'']),
      (''board'', Zst [''first'']),
      (''flags'', Hsh [(''on'', ''true''), (''off'', ''null'')])]\<close>

definition broken_store :: store where
  \<open>broken_store = [(''a'', Str ''42''), (''b'', Str ''{oops'')]\<close>

section \<open>Primitive operations: classification of the store's replies\<close>

lemmas async_defs = try_catch_def await_def call_def throw_def resolve_def

lemmas sample_defs = facade_def mem_client_def stale_client_def closed_client_def
  sample_json_def drop_key_def list_range_def users_store_def mixed_store_def broken_store_def

lemmas prim_defs = get_def delete_def listGet_def hashGetAll_def set_redis_def
  parse_json_def stringify_def

text \<open>
  Claim C9. When the store's \<^verbatim>\<open>ttl\<close> query replies \<open>-2\<close> (key absent), \<^verbatim>\<open>getTimeToLive\<close>
  fails with the \<^verbatim>\<open>HttpError\<close> of status 404 and message \<^verbatim>\<open>Key not found\<close>; any other
  integer reply, the \<open>-1\<close> of a key with no expiry included, is returned unchanged.
\<close>

theorem getTimeToLive_sentinel:
  assumes "c_ttl (client ec) key \<sigma> = (Inr t, \<sigma>')"
  shows "getTimeToLive ec key \<sigma> =
           (if t = - 2 then (Inl (HttpError ''Key not found'' 404 None), \<sigma>') else (Inr t, \<sigma>'))"
  using assms by (simp add: getTimeToLive_def async_defs)

theorem getTimeToLive_sentinel_witness:
  "c_ttl (client (facade mem_client)) ''gone'' [(''k'', Str ''42'')] = (Inr (- 2), [(''k'', Str ''42'')])
   \<and> getTimeToLive (facade mem_client) ''gone'' [(''k'', Str ''42'')]
       = (Inl (HttpError ''Key not found'' 404 None), [(''k'', Str ''42'')])
   \<and> c_ttl (client (facade mem_client)) ''k'' [(''k'', Str ''42'')] = (Inr (- 1), [(''k'', Str ''42'')])
   \<and> getTimeToLive (facade mem_client) ''k'' [(''k'', Str ''42'')] = (Inr (- 1), [(''k'', Str ''42'')])"
proof -
  have a: "c_ttl (client (facade mem_client)) ''gone'' [(''k'', Str ''42'')] = (Inr (- 2), [(''k'', Str ''42'')])"
    by (simp add: sample_defs)
  have b: "c_ttl (client (facade mem_client)) ''k'' [(''k'', Str ''42'')] = (Inr (- 1), [(''k'', Str ''42'')])"
    by (simp add: sample_defs)
  show ?thesis
    using a b getTimeToLive_sentinel [OF a] getTimeToLive_sentinel [OF b] by simp
qed

text \<open>
  Claim C10. When the store's \<^verbatim>\<open>expire\<close> call rejects (an error that is not an
  \<^verbatim>\<open>HttpError\<close>), \<^verbatim>\<open>refreshKey\<close> swallows it and resolves: no error of status 500
  reaches the caller.
\<close>

theorem refreshKey_swallows_store_failure:
  assumes "c_expire (client ec) key ttl \<sigma> = (Inl msg, \<sigma>')"
  shows "refreshKey ec key ttl \<sigma> = (Inr (), \<sigma>')"
  using assms by (simp add: refreshKey_def async_defs)

theorem refreshKey_swallows_store_failure_witness:
  "c_expire (client (facade closed_client)) ''k'' 60 [(''k'', Str ''42'')]
     = (Inl ''The client is closed'', [(''k'', Str ''42'')])
   \<and> refreshKey (facade closed_client) ''k'' 60 [(''k'', Str ''42'')] = (Inr (), [(''k'', Str ''42'')])"
proof -
  have a: "c_expire (client (facade closed_client)) ''k'' 60 [(''k'', Str ''42'')]
     = (Inl ''The client is closed'', [(''k'', Str ''42'')])"
    by (simp add: sample_defs)
  show ?thesis using a refreshKey_swallows_store_failure [OF a] by simp
qed

text \<open>
  Claim C2, as stated: when \<^verbatim>\<open>expire\<close> replies zero, \<^verbatim>\<open>refreshKey\<close> resolves and the caller
  sees no 404 error. It fails on the sample store: for an absent key \<^verbatim>\<open>expire\<close> replies zero
  and \<^verbatim>\<open>refreshKey\<close> rejects with the 404 error.
\<close>

theorem refreshKey_missing_key_counterexample:
  "c_expire (client (facade mem_client)) ''gone'' 60 [] = (Inr 0, [])
   \<and> refreshKey (facade mem_client) ''gone'' 60 [] = (Inl (HttpError ''Key not found'' 404 None), [])"
  by (simp add: refreshKey_def async_defs sample_defs)

text \<open>
  Claim C2, amended. When \<^verbatim>\<open>expire\<close> replies zero (key absent), \<^verbatim>\<open>refreshKey\<close> rejects with
  the \<^verbatim>\<open>HttpError\<close> of status 404 and message \<^verbatim>\<open>Key not found\<close>: the \<^verbatim>\<open>catch\<close> rethrows it,
  as the method's documentation says.
\<close>

theorem refreshKey_missing_key_raises:
  assumes "c_expire (client ec) key ttl \<sigma> = (Inr 0, \<sigma>')"
  shows "refreshKey ec key ttl \<sigma> = (Inl (HttpError ''Key not found'' 404 None), \<sigma>')"
  using assms by (simp add: refreshKey_def async_defs)

theorem refreshKey_missing_key_raises_witness:
  "c_expire (client (facade mem_client)) ''gone'' 60 [(''k'', Str ''42'')] = (Inr 0, [(''k'', Str ''42'')])
   \<and> refreshKey (facade mem_client) ''gone'' 60 [(''k'', Str ''42'')]
       = (Inl (HttpError ''Key not found'' 404 None), [(''k'', Str ''42'')])"
proof -
  have a: "c_expire (client (facade mem_client)) ''gone'' 60 [(''k'', Str ''42'')] = (Inr 0, [(''k'', Str ''42'')])"
    by (simp add: sample_defs)
  show ?thesis using a refreshKey_missing_key_raises [OF a] by simp
qed

text \<open>
  Claim C1 says that \<^verbatim>\<open>listGet\<close> fails with status 404 and message \<^verbatim>\<open>List is empty\<close> when
  the range read is empty. The body throws that error, but the \<^verbatim>\<open>catch\<close> of \<^verbatim>\<open>listGet\<close>
  replaces it: on an absent list the range read is empty and the caller gets status 500
  and message \<^verbatim>\<open>Error fetching from Redis list\<close>.
\<close>

theorem listGet_empty_rewrapped:
  "c_lRange (client (facade mem_client)) ''missing'' 0 (- 1) [] = (Inr [], [])
   \<and> listGet (facade mem_client) ''missing'' 0 (- 1) False []
       = (Inl (HttpError ''Error fetching from Redis list'' 500 None), [])"
  by (simp add: listGet_def async_defs sample_defs)

text \<open>
  Claim C3 says that \<^verbatim>\<open>hashGetAll\<close> fails with status 404 on a key that holds no hash
  entries. The method tests the reply against \<^verbatim>\<open>null\<close> only: the empty object that the
  whole-hash read yields for an absent key is returned as a success, with and without
  parsing; and with \<^verbatim>\<open>dev\<close> set, a \<^verbatim>\<open>null\<close> reply ends in status 500.
\<close>

theorem hashGetAll_empty_passes:
  "c_hGetAll (client (facade mem_client)) ''missing'' [] = (Inr (Some []), [])
   \<and> hashGetAll (facade mem_client) ''missing'' False [] = (Inr [], [])
   \<and> hashGetAll (facade mem_client) ''missing'' True [] = (Inr [], [])
   \<and> hashGetAll (facade (mem_client \<lparr> c_hGetAll := (\<lambda>key \<sigma>. (Inr None, \<sigma>)) \<rparr>) \<lparr> dev := True \<rparr>)
         ''missing'' False []
       = (Inl (HttpError ''Error finding the Redis hash'' 500 None), [])"
  by (simp add: hashGetAll_def async_defs sample_defs)

section \<open>Promise.all: outcomes, order and state\<close>

lemma settle_snd: "snd (settle ps \<sigma>) = foldl (\<lambda>s p. snd (p s)) \<sigma> ps"
  by (induction ps arbitrary: \<sigma>) (simp_all add: split_beta)

lemma settle_length: "length (fst (settle ps \<sigma>)) = length ps"
  by (induction ps arbitrary: \<sigma>) (simp_all add: split_beta)

lemma settle_nth:
  "i < length ps \<Longrightarrow>
   fst (settle ps \<sigma>) ! i = fst ((ps ! i) (foldl (\<lambda>s p. snd (p s)) \<sigma> (take i ps)))"
proof (induction ps arbitrary: \<sigma> i)
  case Nil
  then show ?case by simp
next
  case (Cons p ps)
  show ?case
  proof (cases i)
    case 0
    then show ?thesis by (simp add: split_beta)
  next
    case (Suc n)
    with Cons.prems have "n < length ps" by simp
    from Cons.IH [OF this, of "snd (p \<sigma>)"] Suc show ?thesis
      by (simp add: split_beta)
  qed
qed

lemma join_first_rejection:
  "i < length rs \<Longrightarrow> rs ! i = Inl e \<Longrightarrow> (\<forall>j<i. \<exists>v. rs ! j = Inr v) \<Longrightarrow> join rs = Inl e"
proof (induction rs arbitrary: i rule: join.induct)
  case 1
  then show ?case by simp
next
  case (2 e' rs)
  then show ?case by (cases i) auto
next
  case (3 v rs)
  show ?case
  proof (cases i)
    case 0
    with 3 show ?thesis by simp
  next
    case (Suc n)
    have "join rs = Inl e"
    proof (rule "3.IH")
      show "n < length rs" using "3.prems" Suc by simp
      show "rs ! n = Inl e" using "3.prems" Suc by simp
      show "\<forall>j<n. \<exists>v. rs ! j = Inr v"
      proof (intro allI impI)
        fix j assume "j < n"
        then have "Suc j < i" using Suc by simp
        with "3.prems"(3) obtain w where "(Inr v # rs) ! Suc j = Inr w" by blast
        then show "\<exists>v. rs ! j = Inr v" by simp
      qed
    qed
    then show ?thesis by simp
  qed
qed

lemma join_all_resolved:
  "length vs = length rs \<Longrightarrow> (\<forall>i<length rs. rs ! i = Inr (vs ! i)) \<Longrightarrow> join rs = Inr vs"
proof (induction rs arbitrary: vs)
  case Nil
  then show ?case by simp
next
  case (Cons r rs)
  then obtain w ws where vs: "vs = w # ws" by (cases vs) auto
  from Cons.prems vs have r: "r = Inr w" by auto
  have "join rs = Inr ws"
  proof (rule Cons.IH)
    show "length ws = length rs" using Cons.prems vs by simp
    show "\<forall>i<length rs. rs ! i = Inr (ws ! i)"
    proof (intro allI impI)
      fix i assume "i < length rs"
      then have "Suc i < length (r # rs)" by simp
      with Cons.prems(2) have "(r # rs) ! Suc i = Inr (vs ! Suc i)" by blast
      then show "rs ! i = Inr (ws ! i)" using vs by simp
    qed
  qed
  with r vs show ?case by simp
qed

lemma pair_up_map2:
  "length vals = length keys \<Longrightarrow> pair_up keys vals = map2 (\<lambda>key v. JObj [(key, v)]) keys vals"
  unfolding pair_up_def
  by (rule nth_equalityI) (simp_all add: nth_enumerate_eq)

lemma get_state: "snd (get ec key parse \<sigma>) = snd (c_get (client ec) key \<sigma>)"
  by (auto simp: get_def async_defs parse_json_def split: prod.splits sum.splits option.splits)

lemma delete_state: "snd (delete ec key \<sigma>) = snd (c_del (client ec) key \<sigma>)"
  by (auto simp: delete_def async_defs split: prod.splits sum.splits)

lemma get_rejects_classified: "get ec key parse \<sigma> = (Inl e, \<sigma>') \<Longrightarrow> is_HttpError e"
  by (auto simp: get_def async_defs parse_json_def split: prod.splits sum.splits option.splits if_splits)

lemma delete_rejects_classified: "delete ec key \<sigma> = (Inl e, \<sigma>') \<Longrightarrow> is_HttpError e"
  by (auto simp: delete_def async_defs split: prod.splits sum.splits if_splits)

lemma listGet_rejects_classified: "listGet ec key a b parse \<sigma> = (Inl e, \<sigma>') \<Longrightarrow> is_HttpError e"
  by (auto simp: listGet_def async_defs split: prod.splits sum.splits if_splits)

lemma hashGetAll_rejects_classified: "hashGetAll ec key parse \<sigma> = (Inl e, \<sigma>') \<Longrightarrow> is_HttpError e"
  by (auto simp: hashGetAll_def async_defs split: prod.splits sum.splits option.splits if_splits)

lemma members_state:
  "foldl (\<lambda>s p. snd (p s)) \<sigma> (take i (map f keys)) = foldl (\<lambda>s key. snd (f key s)) \<sigma> (take i keys)"
  by (simp add: take_map foldl_map)

lemma Promise_all_first_rejection:
  assumes "i < length keys"
    and "fst (f (keys ! i) (foldl (\<lambda>s key. snd (f key s)) \<sigma> (take i keys))) = Inl e"
    and "\<forall>j<i. \<exists>v. fst (f (keys ! j) (foldl (\<lambda>s key. snd (f key s)) \<sigma> (take j keys))) = Inr v"
  shows "fst (Promise_all (map f keys) \<sigma>) = Inl e"
proof -
  let ?rs = "fst (settle (map f keys) \<sigma>)"
  have nth: "?rs ! j = fst (f (keys ! j) (foldl (\<lambda>s key. snd (f key s)) \<sigma> (take j keys)))"
    if "j < length keys" for j
    using that settle_nth [of j "map f keys" \<sigma>] by (simp add: members_state)
  have "join ?rs = Inl e"
  proof (rule join_first_rejection [of i])
    show "i < length ?rs" using assms(1) by (simp add: settle_length)
    show "?rs ! i = Inl e" using assms(1,2) nth by simp
    show "\<forall>j<i. \<exists>v. ?rs ! j = Inr v" using assms(1,3) nth by simp
  qed
  then show ?thesis by (simp add: Promise_all_def split_beta)
qed

lemma Promise_all_resolved:
  assumes "length vs = length keys"
    and "\<forall>i<length keys. fst (f (keys ! i) (foldl (\<lambda>s key. snd (f key s)) \<sigma> (take i keys))) = Inr (vs ! i)"
  shows "fst (Promise_all (map f keys) \<sigma>) = Inr vs"
proof -
  let ?rs = "fst (settle (map f keys) \<sigma>)"
  have nth: "?rs ! j = fst (f (keys ! j) (foldl (\<lambda>s key. snd (f key s)) \<sigma> (take j keys)))"
    if "j < length keys" for j
    using that settle_nth [of j "map f keys" \<sigma>] by (simp add: members_state)
  have "join ?rs = Inr vs"
  proof (rule join_all_resolved)
    show "length vs = length ?rs" using assms(1) by (simp add: settle_length)
    show "\<forall>i<length ?rs. ?rs ! i = Inr (vs ! i)" using assms(2) nth by (simp add: settle_length)
  qed
  then show ?thesis by (simp add: Promise_all_def split_beta)
qed

lemma Promise_all_state:
  "snd (Promise_all (map f keys) \<sigma>) = foldl (\<lambda>s key. snd (f key s)) \<sigma> keys"
  using settle_snd [of "map f keys" \<sigma>] by (simp add: Promise_all_def foldl_map split_beta)

lemma Promise_all_rejects_classified:
  assumes "Promise_all (map f keys) \<sigma> = (Inl e, \<sigma>')"
    and "\<And>key s e s'. f key s = (Inl e, s') \<Longrightarrow> is_HttpError e"
  shows "is_HttpError e"
proof -
  have "join (fst (settle (map f keys) s)) = Inl e \<Longrightarrow> is_HttpError e" for s
  proof (induction keys arbitrary: s)
    case Nil
    then show ?case by simp
  next
    case (Cons k ks)
    obtain r s1 where f: "f k s = (r, s1)" by (cases "f k s")
    show ?case
    proof (cases r)
      case (Inl e')
      with Cons.prems f have "e' = e" by (simp add: split_beta)
      with f Inl assms(2) show ?thesis by blast
    next
      case (Inr v)
      with Cons.prems f have "join (fst (settle (map f ks) s1)) = Inl e"
        by (simp add: split_beta split: sum.splits)
      then show ?thesis by (rule Cons.IH)
    qed
  qed
  from this [of \<sigma>] assms(1) show ?thesis by (simp add: Promise_all_def split_beta)
qed

section \<open>Composite operations over the enumerated keys\<close>

lemma getByPrefix_unfold:
  assumes "c_keys (client ec) (prefix @ '':*'') \<sigma> = (Inr keys, \<sigma>1)" and "keys \<noteq> []"
  shows "getByPrefix ec prefix \<sigma> =
     (case Promise_all (map (\<lambda>key. get ec key True) keys) \<sigma>1 of
        (Inl e, \<sigma>2) \<Rightarrow> (if is_HttpError e then (Inl e, \<sigma>2)
                         else (Inl (HttpError ''Error fetching keys by prefix'' 500 None), \<sigma>2))
      | (Inr vals, \<sigma>2) \<Rightarrow> (Inr (pair_up keys vals), \<sigma>2))"
  using assms by (simp add: getByPrefix_def async_defs split: prod.splits sum.splits)

lemma deleteAll_unfold:
  assumes "c_keys (client ec) (case pattern of None \<Rightarrow> ''*'' | Some p \<Rightarrow> p) \<sigma> = (Inr keys, \<sigma>1)"
    and "keys \<noteq> []"
  shows "deleteAll ec pattern \<sigma> =
     (case Promise_all (map (\<lambda>key. delete ec key) keys) \<sigma>1 of
        (Inl e, \<sigma>2) \<Rightarrow> (if is_HttpError e then (Inl e, \<sigma>2)
                         else (Inl (HttpError ''Error deleting all keys from Redis'' 500 None), \<sigma>2))
      | (Inr vals, \<sigma>2) \<Rightarrow> (Inr (), \<sigma>2))"
  using assms by (simp add: deleteAll_def async_defs split: prod.splits sum.splits)

lemma getByPrefix_member_error:
  assumes keys: "c_keys (client ec) (prefix @ '':*'') \<sigma> = (Inr keys, \<sigma>1)"
    and i: "i < length keys"
    and fails: "fst (get ec (keys ! i) True
                  (foldl (\<lambda>s key. snd (c_get (client ec) key s)) \<sigma>1 (take i keys))) = Inl e"
    and before: "\<forall>j<i. \<exists>v. fst (get ec (keys ! j) True
                  (foldl (\<lambda>s key. snd (c_get (client ec) key s)) \<sigma>1 (take j keys))) = Inr v"
  shows "fst (getByPrefix ec prefix \<sigma>) = Inl e"
proof -
  let ?f = "\<lambda>key. get ec key True"
  have st: "(\<lambda>s key. snd (?f key s)) = (\<lambda>s key. snd (c_get (client ec) key s))"
    by (simp add: get_state)
  have all: "fst (Promise_all (map ?f keys) \<sigma>1) = Inl e"
    by (rule Promise_all_first_rejection [of i]) (use i fails before in \<open>simp_all add: st\<close>)
  then obtain \<sigma>2 where p: "Promise_all (map ?f keys) \<sigma>1 = (Inl e, \<sigma>2)"
    by (cases "Promise_all (map ?f keys) \<sigma>1") simp
  have "is_HttpError e"
    by (rule Promise_all_rejects_classified [OF p]) (rule get_rejects_classified)
  moreover from i have "keys \<noteq> []" by auto
  ultimately show ?thesis using getByPrefix_unfold [OF keys] p by simp
qed

lemma deleteAll_member_error:
  assumes keys: "c_keys (client ec) (case pattern of None \<Rightarrow> ''*'' | Some p \<Rightarrow> p) \<sigma> = (Inr keys, \<sigma>1)"
    and i: "i < length keys"
    and fails: "fst (delete ec (keys ! i)
                  (foldl (\<lambda>s key. snd (c_del (client ec) key s)) \<sigma>1 (take i keys))) = Inl e"
    and before: "\<forall>j<i. fst (delete ec (keys ! j)
                  (foldl (\<lambda>s key. snd (c_del (client ec) key s)) \<sigma>1 (take j keys))) = Inr ()"
  shows "fst (deleteAll ec pattern \<sigma>) = Inl e"
proof -
  let ?f = "\<lambda>key. delete ec key"
  have st: "(\<lambda>s key. snd (?f key s)) = (\<lambda>s key. snd (c_del (client ec) key s))"
    by (simp add: delete_state)
  have all: "fst (Promise_all (map ?f keys) \<sigma>1) = Inl e"
    by (rule Promise_all_first_rejection [of i]) (use i fails before in \<open>simp_all add: st\<close>)
  then obtain \<sigma>2 where p: "Promise_all (map ?f keys) \<sigma>1 = (Inl e, \<sigma>2)"
    by (cases "Promise_all (map ?f keys) \<sigma>1") simp
  have "is_HttpError e"
    by (rule Promise_all_rejects_classified [OF p]) (rule delete_rejects_classified)
  moreover from i have "keys \<noteq> []" by auto
  ultimately show ?thesis using deleteAll_unfold [OF keys] p by simp
qed

lemma deleteAll_state:
  assumes keys: "c_keys (client ec) (case pattern of None \<Rightarrow> ''*'' | Some p \<Rightarrow> p) \<sigma> = (Inr keys, \<sigma>1)"
    and "keys \<noteq> []"
  shows "snd (deleteAll ec pattern \<sigma>) = foldl (\<lambda>s key. snd (c_del (client ec) key s)) \<sigma>1 keys"
proof -
  have "snd (deleteAll ec pattern \<sigma>) = snd (Promise_all (map (\<lambda>key. delete ec key) keys) \<sigma>1)"
    using deleteAll_unfold [OF assms] by (simp split: prod.splits sum.splits)
  then show ?thesis by (simp add: Promise_all_state delete_state)
qed

text \<open>
  Claim C6. \<^verbatim>\<open>getByPrefix(prefix)\<close> enumerates the keys with the pattern \<^verbatim>\<open>prefix:*\<close>. When
  the enumeration is empty it fails with status 404 and message \<^verbatim>\<open>Index not found\<close>.
  Otherwise, when the \<open>i\<close>-th key's \<^verbatim>\<open>get\<close> with parsing (issued after the reads of the
  keys before it) resolves to \<open>vs ! i\<close> for every \<open>i\<close>, it returns one single-entry record
  \<open>{key: value}\<close> per enumerated key, in the order of the enumeration.
\<close>

theorem getByPrefix_records:
  assumes "c_keys (client ec) (prefix @ '':*'') \<sigma> = (Inr keys, \<sigma>1)"
  shows "(keys = [] \<longrightarrow>
            getByPrefix ec prefix \<sigma> = (Inl (HttpError ''Index not found'' 404 None), \<sigma>1))
       \<and> (keys \<noteq> [] \<and> length vs = length keys
            \<and> (\<forall>i<length keys.
                  fst (get ec (keys ! i) True
                         (foldl (\<lambda>s key. snd (c_get (client ec) key s)) \<sigma>1 (take i keys)))
                  = Inr (vs ! i))
          \<longrightarrow> fst (getByPrefix ec prefix \<sigma>) = Inr (map2 (\<lambda>key v. JObj [(key, v)]) keys vs))"
proof (intro conjI impI)
  assume "keys = []"
  with assms show "getByPrefix ec prefix \<sigma> = (Inl (HttpError ''Index not found'' 404 None), \<sigma>1)"
    by (simp add: getByPrefix_def async_defs)
next
  assume h: "keys \<noteq> [] \<and> length vs = length keys
            \<and> (\<forall>i<length keys.
                  fst (get ec (keys ! i) True
                         (foldl (\<lambda>s key. snd (c_get (client ec) key s)) \<sigma>1 (take i keys)))
                  = Inr (vs ! i))"
  let ?f = "\<lambda>key. get ec key True"
  have st: "(\<lambda>s key. snd (?f key s)) = (\<lambda>s key. snd (c_get (client ec) key s))"
    by (simp add: get_state)
  have "fst (Promise_all (map ?f keys) \<sigma>1) = Inr vs"
    by (rule Promise_all_resolved) (use h in \<open>simp_all add: st\<close>)
  then obtain \<sigma>2 where "Promise_all (map ?f keys) \<sigma>1 = (Inr vs, \<sigma>2)"
    by (cases "Promise_all (map ?f keys) \<sigma>1") simp
  with h show "fst (getByPrefix ec prefix \<sigma>) = Inr (map2 (\<lambda>key v. JObj [(key, v)]) keys vs)"
    using getByPrefix_unfold [OF assms] by (simp add: pair_up_map2)
qed

theorem getByPrefix_records_witness:
  "c_keys (client (facade mem_client)) (''users'' @ '':*'') users_store
     = (Inr [''users:1'', ''users:2''], users_store)
   \<and> fst (getByPrefix (facade mem_client) ''users'' users_store)
     = Inr [JObj [(''users:1'', JObj [(''name'', JStr ''Alice'')])],
            JObj [(''users:2'', JObj [(''name'', JStr ''Bob'')])]]
   \<and> c_keys (client (facade mem_client)) (''orders'' @ '':*'') users_store = (Inr [], users_store)
   \<and> getByPrefix (facade mem_client) ''orders'' users_store
     = (Inl (HttpError ''Index not found'' 404 None), users_store)"
proof -
  have k: "c_keys (client (facade mem_client)) (''users'' @ '':*'') users_store
     = (Inr [''users:1'', ''users:2''], users_store)"
    by (simp add: sample_defs)
  have n: "c_keys (client (facade mem_client)) (''orders'' @ '':*'') users_store = (Inr [], users_store)"
    by (simp add: sample_defs)
  have g1: "get (facade mem_client) ''users:1'' True users_store
      = (Inr (JObj [(''name'', JStr ''Alice'')]), users_store)"
    by (simp add: sample_defs prim_defs async_defs)
  have g2: "get (facade mem_client) ''users:2'' True users_store
      = (Inr (JObj [(''name'', JStr ''Bob'')]), users_store)"
    by (simp add: sample_defs prim_defs async_defs)
  have s1: "snd (c_get (client (facade mem_client)) ''users:1'' users_store) = users_store"
    by (simp add: facade_def mem_client_def)
  have "fst (getByPrefix (facade mem_client) ''users'' users_store)
     = Inr (map2 (\<lambda>key v. JObj [(key, v)]) [''users:1'', ''users:2'']
             [JObj [(''name'', JStr ''Alice'')], JObj [(''name'', JStr ''Bob'')]])"
    using getByPrefix_records [OF k, of "[JObj [(''name'', JStr ''Alice'')], JObj [(''name'', JStr ''Bob'')]]"]
      g1 g2 s1
    by (simp add: All_less_Suc numeral_2_eq_2)
  moreover have "getByPrefix (facade mem_client) ''orders'' users_store
     = (Inl (HttpError ''Index not found'' 404 None), users_store)"
    using getByPrefix_records [OF n] by simp
  ultimately show ?thesis using k n by simp
qed

text \<open>
  Claim C8. \<^verbatim>\<open>deleteAll(pattern)\<close> enumerates the keys of the pattern, \<^verbatim>\<open>*\<close> when the
  argument is left out. When the enumeration is empty it fails with status 404 and message
  \<^verbatim>\<open>No keys found\<close>, and the store is in the state the enumeration left: no delete is
  issued. Otherwise the store's \<^verbatim>\<open>del\<close> is issued for every enumerated key, in order,
  whether or not a member fails; when the \<open>i\<close>-th delete is the first to fail, the whole
  call fails with that member's error; when none fails, the call resolves.
\<close>

theorem deleteAll_all_or_error:
  assumes "c_keys (client ec) (case pattern of None \<Rightarrow> ''*'' | Some p \<Rightarrow> p) \<sigma> = (Inr keys, \<sigma>1)"
  shows "(keys = [] \<longrightarrow>
            deleteAll ec pattern \<sigma> = (Inl (HttpError ''No keys found'' 404 None), \<sigma>1))
       \<and> (keys \<noteq> [] \<longrightarrow>
            snd (deleteAll ec pattern \<sigma>) = foldl (\<lambda>s key. snd (c_del (client ec) key s)) \<sigma>1 keys)
       \<and> (i < length keys
            \<and> fst (delete ec (keys ! i)
                     (foldl (\<lambda>s key. snd (c_del (client ec) key s)) \<sigma>1 (take i keys))) = Inl e
            \<and> (\<forall>j<i. fst (delete ec (keys ! j)
                     (foldl (\<lambda>s key. snd (c_del (client ec) key s)) \<sigma>1 (take j keys))) = Inr ())
          \<longrightarrow> fst (deleteAll ec pattern \<sigma>) = Inl e)
       \<and> (keys \<noteq> []
            \<and> (\<forall>j<length keys. fst (delete ec (keys ! j)
                     (foldl (\<lambda>s key. snd (c_del (client ec) key s)) \<sigma>1 (take j keys))) = Inr ())
          \<longrightarrow> fst (deleteAll ec pattern \<sigma>) = Inr ())"
proof (intro conjI impI)
  assume "keys = []"
  with assms show "deleteAll ec pattern \<sigma> = (Inl (HttpError ''No keys found'' 404 None), \<sigma>1)"
    by (simp add: deleteAll_def async_defs)
next
  assume "keys \<noteq> []"
  with assms show "snd (deleteAll ec pattern \<sigma>)
      = foldl (\<lambda>s key. snd (c_del (client ec) key s)) \<sigma>1 keys"
    by (rule deleteAll_state)
next
  assume "i < length keys
            \<and> fst (delete ec (keys ! i)
                     (foldl (\<lambda>s key. snd (c_del (client ec) key s)) \<sigma>1 (take i keys))) = Inl e
            \<and> (\<forall>j<i. fst (delete ec (keys ! j)
                     (foldl (\<lambda>s key. snd (c_del (client ec) key s)) \<sigma>1 (take j keys))) = Inr ())"
  with assms show "fst (deleteAll ec pattern \<sigma>) = Inl e"
    by (intro deleteAll_member_error [of ec pattern \<sigma> keys \<sigma>1 i]) simp_all
next
  assume h: "keys \<noteq> []
            \<and> (\<forall>j<length keys. fst (delete ec (keys ! j)
                     (foldl (\<lambda>s key. snd (c_del (client ec) key s)) \<sigma>1 (take j keys))) = Inr ())"
  let ?f = "\<lambda>key. delete ec key"
  have st: "(\<lambda>s key. snd (?f key s)) = (\<lambda>s key. snd (c_del (client ec) key s))"
    by (simp add: delete_state)
  have "fst (Promise_all (map ?f keys) \<sigma>1) = Inr (replicate (length keys) ())"
    by (rule Promise_all_resolved) (use h in \<open>simp_all add: st\<close>)
  then obtain \<sigma>2 where "Promise_all (map ?f keys) \<sigma>1 = (Inr (replicate (length keys) ()), \<sigma>2)"
    by (cases "Promise_all (map ?f keys) \<sigma>1") simp
  with h show "fst (deleteAll ec pattern \<sigma>) = Inr ()"
    using deleteAll_unfold [OF assms] by simp
qed

theorem deleteAll_all_or_error_witness:
  "c_keys (client (facade (stale_client [''users:1'', ''users:7'', ''users:2''])))
       (case Some ''users:*'' of None \<Rightarrow> ''*'' | Some p \<Rightarrow> p) users_store
     = (Inr [''users:1'', ''users:7'', ''users:2''], users_store)
   \<and> deleteAll (facade (stale_client [''users:1'', ''users:7'', ''users:2''])) (Some ''users:*'') users_store
     = (Inl (HttpError ''Key not found'' 404 None), [(''session'', Str ''42'')])
   \<and> deleteAll (facade mem_client) None users_store = (Inr (), [])
   \<and> deleteAll (facade mem_client) (Some ''orders:*'') users_store
     = (Inl (HttpError ''No keys found'' 404 None), users_store)"
proof -
  let ?stale = "facade (stale_client [''users:1'', ''users:7'', ''users:2''])"
  let ?ec = "facade mem_client"
  let ?e = "HttpError ''Key not found'' 404 None"
  have k1: "c_keys (client ?stale) (case Some ''users:*'' of None \<Rightarrow> ''*'' | Some p \<Rightarrow> p) users_store
     = (Inr [''users:1'', ''users:7'', ''users:2''], users_store)"
    by (simp add: sample_defs)
  have k2: "c_keys (client ?ec) (case None of None \<Rightarrow> ''*'' | Some p \<Rightarrow> p) users_store
     = (Inr [''users:1'', ''session'', ''users:2''], users_store)"
    by (simp add: sample_defs)
  have k3: "c_keys (client ?ec) (case Some ''orders:*'' of None \<Rightarrow> ''*'' | Some p \<Rightarrow> p) users_store
     = (Inr [], users_store)"
    by (simp add: sample_defs)
  note t1 = deleteAll_all_or_error [OF k1, of 1 ?e]
  have s1: "snd (deleteAll ?stale (Some ''users:*'') users_store) = [(''session'', Str ''42'')]"
    using t1 by (simp add: sample_defs)
  have h1: "fst (delete ?stale ([''users:1'', ''users:7'', ''users:2''] ! 1)
                     (foldl (\<lambda>s key. snd (c_del (client ?stale) key s)) users_store
                        (take 1 [''users:1'', ''users:7'', ''users:2''])))
            = Inl ?e"
    by (simp add: sample_defs prim_defs async_defs)
  have h2: "\<forall>j<1. fst (delete ?stale ([''users:1'', ''users:7'', ''users:2''] ! j)
                     (foldl (\<lambda>s key. snd (c_del (client ?stale) key s)) users_store
                        (take j [''users:1'', ''users:7'', ''users:2''])))
            = Inr ()"
    by (simp add: sample_defs prim_defs async_defs)
  have f1: "fst (deleteAll ?stale (Some ''users:*'') users_store) = Inl ?e"
    using t1 h1 h2 by simp
  note t2 = deleteAll_all_or_error [OF k2, of 0 ?e]
  have s2: "snd (deleteAll ?ec None users_store) = []"
    using t2 by (simp add: sample_defs)
  have h3: "\<forall>j<length [''users:1'', ''session'', ''users:2''].
              fst (delete ?ec ([''users:1'', ''session'', ''users:2''] ! j)
                     (foldl (\<lambda>s key. snd (c_del (client ?ec) key s)) users_store
                        (take j [''users:1'', ''session'', ''users:2''])))
            = Inr ()"
    by (simp add: sample_defs prim_defs async_defs All_less_Suc numeral_3_eq_3)
  have f2: "fst (deleteAll ?ec None users_store) = Inr ()"
    using t2 h3 by simp
  have f3: "deleteAll ?ec (Some ''orders:*'') users_store
     = (Inl (HttpError ''No keys found'' 404 None), users_store)"
    using deleteAll_all_or_error [OF k3, of 0 ?e] by simp
  from s1 f1 have "deleteAll ?stale (Some ''users:*'') users_store = (Inl ?e, [(''session'', Str ''42'')])"
    by (simp add: prod_eq_iff)
  moreover from s2 f2 have "deleteAll ?ec None users_store = (Inr (), [])"
    by (simp add: prod_eq_iff)
  ultimately show ?thesis using k1 f3 by simp
qed

section \<open>The loop of getAll and the forwarding of errors\<close>

lemma getAll_loop_append:
  "getAll_loop ec (ks1 @ ks2) acc \<sigma> =
     (case getAll_loop ec ks1 acc \<sigma> of
        (Inl e, \<sigma>') \<Rightarrow> (Inl e, \<sigma>')
      | (Inr acc', \<sigma>') \<Rightarrow> getAll_loop ec ks2 acc' \<sigma>')"
  by (induction ks1 arbitrary: acc \<sigma>)
     (simp_all add: async_defs split: prod.splits sum.splits)

lemma getAll_unfold:
  assumes "c_keys (client ec) ''*'' \<sigma> = (Inr keys, \<sigma>1)" and "keys \<noteq> []"
  shows "getAll ec \<sigma> =
     (case getAll_loop ec keys [] \<sigma>1 of
        (Inl e, \<sigma>2) \<Rightarrow> (if is_HttpError e then (Inl e, \<sigma>2)
                         else (Inl (HttpError ''Error fetching all keys from Redis'' 500 None), \<sigma>2))
      | (Inr vals, \<sigma>2) \<Rightarrow> (Inr vals, \<sigma>2))"
  using assms by (simp add: getAll_def async_defs split: prod.splits sum.splits)

text \<open>One turn of the loop, by the reply of type.\<close>

lemma getAll_loop_step:
  assumes "c_type (client ec) key \<sigma> = (Inr ty, \<sigma>1)"
  shows "getAll_loop ec (key # keys) acc \<sigma> =
    (if ty = ''string'' then
       (case get ec key True \<sigma>1 of (Inl e, \<sigma>2) \<Rightarrow> (Inl e, \<sigma>2)
        | (Inr v, \<sigma>2) \<Rightarrow> getAll_loop ec keys (acc @ [JObj [(key, v)]]) \<sigma>2)
     else if ty = ''list'' then
       (case listGet ec key 0 (- 1) True \<sigma>1 of (Inl e, \<sigma>2) \<Rightarrow> (Inl e, \<sigma>2)
        | (Inr v, \<sigma>2) \<Rightarrow> getAll_loop ec keys (acc @ [JObj [(key, JArr v)]]) \<sigma>2)
     else if ty = ''hash'' then
       (case hashGetAll ec key True \<sigma>1 of (Inl e, \<sigma>2) \<Rightarrow> (Inl e, \<sigma>2)
        | (Inr v, \<sigma>2) \<Rightarrow> getAll_loop ec keys (acc @ [JObj [(key, JObj v)]]) \<sigma>2)
     else getAll_loop ec keys acc \<sigma>1)"
  using assms by (simp add: await_def call_def)

lemma getAll_loop_type_rejects:
  assumes "c_type (client ec) key \<sigma> = (Inl msg, \<sigma>1)"
  shows "getAll_loop ec (key # keys) acc \<sigma> = (Inl (Error msg), \<sigma>1)"
  using assms by (simp add: await_def call_def)

lemma getAll_member_error:
  assumes keys: "c_keys (client ec) ''*'' \<sigma> = (Inr (ks1 @ key # ks2), \<sigma>1)"
    and before: "getAll_loop ec ks1 [] \<sigma>1 = (Inr acc, \<sigma>2)"
    and ty: "c_type (client ec) key \<sigma>2 = (Inr ty, \<sigma>3)"
    and fails: "(ty = ''string'' \<and> fst (get ec key True \<sigma>3) = Inl e)
         \<or> (ty = ''list'' \<and> fst (listGet ec key 0 (- 1) True \<sigma>3) = Inl e)
         \<or> (ty = ''hash'' \<and> fst (hashGetAll ec key True \<sigma>3) = Inl e)"
  shows "is_HttpError e \<and> fst (getAll ec \<sigma>) = Inl e"
proof -
  have step: "is_HttpError e \<and> fst (getAll_loop ec (key # ks2) acc \<sigma>2) = Inl e"
  proof -
    consider (s) "ty = ''string''" "fst (get ec key True \<sigma>3) = Inl e"
      | (l) "ty = ''list''" "fst (listGet ec key 0 (- 1) True \<sigma>3) = Inl e"
      | (h) "ty = ''hash''" "fst (hashGetAll ec key True \<sigma>3) = Inl e"
      using fails by blast
    then show ?thesis
    proof cases
      case s
      then obtain \<sigma>4 where r: "get ec key True \<sigma>3 = (Inl e, \<sigma>4)"
        by (cases "get ec key True \<sigma>3") simp
      from r have "is_HttpError e" by (rule get_rejects_classified)
      moreover from r s(1) have "fst (getAll_loop ec (key # ks2) acc \<sigma>2) = Inl e"
        by (simp only: getAll_loop_step [OF ty]) simp
      ultimately show ?thesis by simp
    next
      case l
      then obtain \<sigma>4 where r: "listGet ec key 0 (- 1) True \<sigma>3 = (Inl e, \<sigma>4)"
        by (cases "listGet ec key 0 (- 1) True \<sigma>3") simp
      from r have "is_HttpError e" by (rule listGet_rejects_classified)
      moreover from r l(1) have "fst (getAll_loop ec (key # ks2) acc \<sigma>2) = Inl e"
        by (simp only: getAll_loop_step [OF ty]) simp
      ultimately show ?thesis by simp
    next
      case h
      then obtain \<sigma>4 where r: "hashGetAll ec key True \<sigma>3 = (Inl e, \<sigma>4)"
        by (cases "hashGetAll ec key True \<sigma>3") simp
      from r have "is_HttpError e" by (rule hashGetAll_rejects_classified)
      moreover from r h(1) have "fst (getAll_loop ec (key # ks2) acc \<sigma>2) = Inl e"
        by (simp only: getAll_loop_step [OF ty]) simp
      ultimately show ?thesis by simp
    qed
  qed
  then have cls: "is_HttpError e" by simp
  from step have "fst (getAll_loop ec (key # ks2) acc \<sigma>2) = Inl e" by simp
  then have "fst (getAll_loop ec (ks1 @ key # ks2) [] \<sigma>1) = Inl e"
    by (simp add: getAll_loop_append before)
  then obtain \<sigma>4 where "getAll_loop ec (ks1 @ key # ks2) [] \<sigma>1 = (Inl e, \<sigma>4)"
    by (cases "getAll_loop ec (ks1 @ key # ks2) [] \<sigma>1") simp
  with cls show ?thesis using getAll_unfold [OF keys] by simp
qed

text \<open>
  Claim C5. An error raised by a primitive inside \<^verbatim>\<open>getByPrefix\<close>, \<^verbatim>\<open>getAll\<close> or
  \<^verbatim>\<open>deleteAll\<close> is an \<^verbatim>\<open>HttpError\<close>, and the composite rejects with that very error
  (same message, status and cause), not with its own status-500 error. In \<^verbatim>\<open>getByPrefix\<close>
  and \<^verbatim>\<open>deleteAll\<close> the primitive is the first member of the \<^verbatim>\<open>Promise.all\<close> to fail;
  in \<^verbatim>\<open>getAll\<close> it is the read of the key \<open>key\<close>, reached after the loop has passed the
  keys \<open>ks1\<close> before it.
\<close>

theorem composites_forward_classified:
  "(c_keys (client ec) (prefix @ '':*'') \<sigma> = (Inr keys, \<sigma>1) \<and> i < length keys
      \<and> fst (get ec (keys ! i) True
               (foldl (\<lambda>s key. snd (c_get (client ec) key s)) \<sigma>1 (take i keys))) = Inl e
      \<and> (\<forall>j<i. \<exists>v. fst (get ec (keys ! j) True
               (foldl (\<lambda>s key. snd (c_get (client ec) key s)) \<sigma>1 (take j keys))) = Inr v)
    \<longrightarrow> is_HttpError e \<and> fst (getByPrefix ec prefix \<sigma>) = Inl e)
 \<and> (c_keys (client ec) ''*'' \<sigma> = (Inr (ks1 @ key # ks2), \<sigma>1)
      \<and> getAll_loop ec ks1 [] \<sigma>1 = (Inr acc, \<sigma>2)
      \<and> c_type (client ec) key \<sigma>2 = (Inr ty, \<sigma>3)
      \<and> ((ty = ''string'' \<and> fst (get ec key True \<sigma>3) = Inl e)
         \<or> (ty = ''list'' \<and> fst (listGet ec key 0 (- 1) True \<sigma>3) = Inl e)
         \<or> (ty = ''hash'' \<and> fst (hashGetAll ec key True \<sigma>3) = Inl e))
    \<longrightarrow> is_HttpError e \<and> fst (getAll ec \<sigma>) = Inl e)
 \<and> (c_keys (client ec) (case pattern of None \<Rightarrow> ''*'' | Some p \<Rightarrow> p) \<sigma> = (Inr keys, \<sigma>1)
      \<and> i < length keys
      \<and> fst (delete ec (keys ! i)
               (foldl (\<lambda>s key. snd (c_del (client ec) key s)) \<sigma>1 (take i keys))) = Inl e
      \<and> (\<forall>j<i. fst (delete ec (keys ! j)
               (foldl (\<lambda>s key. snd (c_del (client ec) key s)) \<sigma>1 (take j keys))) = Inr ())
    \<longrightarrow> is_HttpError e \<and> fst (deleteAll ec pattern \<sigma>) = Inl e)"
proof (intro conjI impI)
  assume h: "c_keys (client ec) (prefix @ '':*'') \<sigma> = (Inr keys, \<sigma>1) \<and> i < length keys
      \<and> fst (get ec (keys ! i) True
               (foldl (\<lambda>s key. snd (c_get (client ec) key s)) \<sigma>1 (take i keys))) = Inl e
      \<and> (\<forall>j<i. \<exists>v. fst (get ec (keys ! j) True
               (foldl (\<lambda>s key. snd (c_get (client ec) key s)) \<sigma>1 (take j keys))) = Inr v)"
  then show "is_HttpError e"
    using get_rejects_classified [of ec "keys ! i" True _ e] by (metis prod.collapse)
  from h show "fst (getByPrefix ec prefix \<sigma>) = Inl e"
    by (intro getByPrefix_member_error [of ec prefix \<sigma> keys \<sigma>1 i]) simp_all
next
  assume h: "c_keys (client ec) ''*'' \<sigma> = (Inr (ks1 @ key # ks2), \<sigma>1)
      \<and> getAll_loop ec ks1 [] \<sigma>1 = (Inr acc, \<sigma>2)
      \<and> c_type (client ec) key \<sigma>2 = (Inr ty, \<sigma>3)
      \<and> ((ty = ''string'' \<and> fst (get ec key True \<sigma>3) = Inl e)
         \<or> (ty = ''list'' \<and> fst (listGet ec key 0 (- 1) True \<sigma>3) = Inl e)
         \<or> (ty = ''hash'' \<and> fst (hashGetAll ec key True \<sigma>3) = Inl e))"
  then have both: "is_HttpError e \<and> fst (getAll ec \<sigma>) = Inl e"
    by (intro getAll_member_error [of ec \<sigma> ks1 key ks2 \<sigma>1 acc \<sigma>2 ty \<sigma>3]) simp_all
  from both show "is_HttpError e" ..
  from both show "fst (getAll ec \<sigma>) = Inl e" ..
next
  assume h: "c_keys (client ec) (case pattern of None \<Rightarrow> ''*'' | Some p \<Rightarrow> p) \<sigma> = (Inr keys, \<sigma>1)
      \<and> i < length keys
      \<and> fst (delete ec (keys ! i)
               (foldl (\<lambda>s key. snd (c_del (client ec) key s)) \<sigma>1 (take i keys))) = Inl e
      \<and> (\<forall>j<i. fst (delete ec (keys ! j)
               (foldl (\<lambda>s key. snd (c_del (client ec) key s)) \<sigma>1 (take j keys))) = Inr ())"
  then show "is_HttpError e"
    using delete_rejects_classified [of ec "keys ! i" _ e] by (metis prod.collapse)
  from h show "fst (deleteAll ec pattern \<sigma>) = Inl e"
    by (intro deleteAll_member_error [of ec pattern \<sigma> keys \<sigma>1 i]) simp_all
qed

theorem composites_forward_classified_witness:
  "fst (get (facade (stale_client [''users:1'', ''users:7''])) ''users:7'' True users_store)
     = Inl (HttpError ''Key not found'' 404 None)
   \<and> fst (getByPrefix (facade (stale_client [''users:1'', ''users:7''])) ''users'' users_store)
     = Inl (HttpError ''Key not found'' 404 None)
   \<and> fst (get (facade mem_client) ''b'' True broken_store)
     = Inl (HttpError ''Error fetching from Redis'' 500 None)
   \<and> fst (getAll (facade mem_client) broken_store)
     = Inl (HttpError ''Error fetching from Redis'' 500 None)
   \<and> fst (delete (facade (stale_client [''users:1'', ''users:7''])) ''users:7'' [(''session'', Str ''42'')])
     = Inl (HttpError ''Key not found'' 404 None)
   \<and> fst (deleteAll (facade (stale_client [''users:1'', ''users:7''])) None users_store)
     = Inl (HttpError ''Key not found'' 404 None)"
proof -
  let ?stale = "facade (stale_client [''users:1'', ''users:7''])"
  let ?ec = "facade mem_client"
  let ?nf = "HttpError ''Key not found'' 404 None"
  let ?pf = "HttpError ''Error fetching from Redis'' 500 None"
  have g: "fst (get ?stale ''users:7'' True users_store) = Inl ?nf"
    by (simp add: sample_defs prim_defs async_defs)
  have p: "fst (get ?ec ''b'' True broken_store) = Inl ?pf"
    by (simp add: sample_defs prim_defs async_defs)
  have d: "fst (delete ?stale ''users:7'' [(''session'', Str ''42'')]) = Inl ?nf"
    by (simp add: sample_defs prim_defs async_defs)
  have h1: "c_keys (client ?stale) (''users'' @ '':*'') users_store
        = (Inr [''users:1'', ''users:7''], users_store) \<and> 1 < length [''users:1'', ''users:7'']
      \<and> fst (get ?stale ([''users:1'', ''users:7''] ! 1) True
               (foldl (\<lambda>s key. snd (c_get (client ?stale) key s)) users_store
                  (take 1 [''users:1'', ''users:7'']))) = Inl ?nf
      \<and> (\<forall>j<1. \<exists>v. fst (get ?stale ([''users:1'', ''users:7''] ! j) True
               (foldl (\<lambda>s key. snd (c_get (client ?stale) key s)) users_store
                  (take j [''users:1'', ''users:7'']))) = Inr v)"
    by (simp add: sample_defs prim_defs async_defs)
  have c1: "fst (getByPrefix ?stale ''users'' users_store) = Inl ?nf"
    using composites_forward_classified [of ?stale "''users''" users_store
        "[''users:1'', ''users:7'']" users_store 1 ?nf, THEN conjunct1] h1
    by blast
  have h2: "c_keys (client ?ec) ''*'' broken_store = (Inr ([''a''] @ ''b'' # []), broken_store)
      \<and> getAll_loop ?ec [''a''] [] broken_store = (Inr [JObj [(''a'', JNum 42)]], broken_store)
      \<and> c_type (client ?ec) ''b'' broken_store = (Inr ''string'', broken_store)
      \<and> ((''string'' = ''string'' \<and> fst (get ?ec ''b'' True broken_store) = Inl ?pf)
         \<or> (''string'' = ''list'' \<and> fst (listGet ?ec ''b'' 0 (- 1) True broken_store) = Inl ?pf)
         \<or> (''string'' = ''hash'' \<and> fst (hashGetAll ?ec ''b'' True broken_store) = Inl ?pf))"
    by (simp add: sample_defs prim_defs async_defs)
  have c2: "fst (getAll ?ec broken_store) = Inl ?pf"
    using composites_forward_classified [of ?ec _ broken_store _ broken_store _ ?pf
        "[''a'']" "''b''" "[]" "[JObj [(''a'', JNum 42)]]" broken_store "''string''" broken_store,
        THEN conjunct2, THEN conjunct1] h2
    by blast
  have h3: "c_keys (client ?stale) (case None of None \<Rightarrow> ''*'' | Some p \<Rightarrow> p) users_store
        = (Inr [''users:1'', ''users:7''], users_store) \<and> 1 < length [''users:1'', ''users:7'']
      \<and> fst (delete ?stale ([''users:1'', ''users:7''] ! 1)
               (foldl (\<lambda>s key. snd (c_del (client ?stale) key s)) users_store
                  (take 1 [''users:1'', ''users:7'']))) = Inl ?nf
      \<and> (\<forall>j<1. fst (delete ?stale ([''users:1'', ''users:7''] ! j)
               (foldl (\<lambda>s key. snd (c_del (client ?stale) key s)) users_store
                  (take j [''users:1'', ''users:7'']))) = Inr ())"
    by (simp add: sample_defs prim_defs async_defs)
  have c3: "fst (deleteAll ?stale None users_store) = Inl ?nf"
    using composites_forward_classified [of ?stale _ users_store
        "[''users:1'', ''users:7'']" users_store 1 ?nf _ _ _ _ _ _ _ None,
        THEN conjunct2, THEN conjunct2] h3
    by blast
  from g c1 p c2 d c3 show ?thesis by simp
qed

section \<open>The snapshot of getAll\<close>

text \<open>The accumulator only collects: the loop from \<open>acc\<close> is the loop from the empty array.\<close>

lemma getAll_loop_acc:
  "getAll_loop ec keys acc \<sigma> =
     (case getAll_loop ec keys [] \<sigma> of
        (Inl e, \<sigma>') \<Rightarrow> (Inl e, \<sigma>')
      | (Inr new, \<sigma>') \<Rightarrow> (Inr (acc @ new), \<sigma>'))"
proof (induction keys arbitrary: acc \<sigma>)
  case Nil
  then show ?case by (simp add: resolve_def)
next
  case (Cons key keys)
  have ih: "getAll_loop ec keys (acc @ [r]) s =
       (case getAll_loop ec keys [r] s of
          (Inl e, \<sigma>') \<Rightarrow> (Inl e, \<sigma>')
        | (Inr new, \<sigma>') \<Rightarrow> (Inr (acc @ new), \<sigma>'))" for r s acc
    using Cons.IH [of "acc @ [r]" s] Cons.IH [of "[r]" s]
    by (simp split: prod.splits sum.splits)
  obtain t \<sigma>1 where t: "c_type (client ec) key \<sigma> = (t, \<sigma>1)"
    by (cases "c_type (client ec) key \<sigma>")
  show ?case
  proof (cases t)
    case (Inl msg)
    with t show ?thesis
      by (simp only: getAll_loop_type_rejects [of ec key \<sigma> msg \<sigma>1]) simp
  next
    case (Inr ty)
    with t have ty: "c_type (client ec) key \<sigma> = (Inr ty, \<sigma>1)" by simp
    consider (s) "ty = ''string''" | (l) "ty = ''list''" | (h) "ty = ''hash''"
      | (o) "ty \<noteq> ''string''" "ty \<noteq> ''list''" "ty \<noteq> ''hash''"
      by blast
    then show ?thesis
    proof cases
      case s
      obtain x \<sigma>2 where x: "get ec key True \<sigma>1 = (x, \<sigma>2)" by (cases "get ec key True \<sigma>1")
      show ?thesis
        using s x ih [of acc "JObj [(key, projr x)]" \<sigma>2]
        by (cases x) (simp_all only: getAll_loop_step [OF ty], simp_all)
    next
      case l
      obtain x \<sigma>2 where x: "listGet ec key 0 (- 1) True \<sigma>1 = (x, \<sigma>2)"
        by (cases "listGet ec key 0 (- 1) True \<sigma>1")
      show ?thesis
        using l x ih [of acc "JObj [(key, JArr (projr x))]" \<sigma>2]
        by (cases x) (simp_all only: getAll_loop_step [OF ty], simp_all)
    next
      case h
      obtain x \<sigma>2 where x: "hashGetAll ec key True \<sigma>1 = (x, \<sigma>2)"
        by (cases "hashGetAll ec key True \<sigma>1")
      show ?thesis
        using h x ih [of acc "JObj [(key, JObj (projr x))]" \<sigma>2]
        by (cases x) (simp_all only: getAll_loop_step [OF ty], simp_all)
    next
      case o
      then show ?thesis
        using Cons.IH [of acc \<sigma>1]
        by (simp_all only: getAll_loop_step [OF ty]) simp
    qed
  qed
qed

text \<open>One key: what the loop adds for it.\<close>

lemma getAll_loop_single:
  assumes "getAll_loop ec [key] [] \<sigma> = (Inr new, \<sigma>')"
  shows "(fst (c_type (client ec) key \<sigma>) = Inr ''string''
            \<and> (\<exists>v. get ec key True (snd (c_type (client ec) key \<sigma>)) = (Inr v, \<sigma>')
                   \<and> new = [JObj [(key, v)]]))
       \<or> (fst (c_type (client ec) key \<sigma>) = Inr ''list''
            \<and> (\<exists>vs. listGet ec key 0 (- 1) True (snd (c_type (client ec) key \<sigma>)) = (Inr vs, \<sigma>')
                   \<and> new = [JObj [(key, JArr vs)]]))
       \<or> (fst (c_type (client ec) key \<sigma>) = Inr ''hash''
            \<and> (\<exists>h. hashGetAll ec key True (snd (c_type (client ec) key \<sigma>)) = (Inr h, \<sigma>')
                   \<and> new = [JObj [(key, JObj h)]]))
       \<or> (fst (c_type (client ec) key \<sigma>) \<notin> {Inr ''string'', Inr ''list'', Inr ''hash''}
            \<and> new = [])"
proof -
  obtain t \<sigma>1 where t: "c_type (client ec) key \<sigma> = (t, \<sigma>1)"
    by (cases "c_type (client ec) key \<sigma>")
  show ?thesis
  proof (cases t)
    case (Inl msg)
    with t assms show ?thesis
      by (simp only: getAll_loop_type_rejects [of ec key \<sigma> msg \<sigma>1]) simp
  next
    case (Inr ty)
    with t have ty: "c_type (client ec) key \<sigma> = (Inr ty, \<sigma>1)" by simp
    consider (s) "ty = ''string''" | (l) "ty = ''list''" | (h) "ty = ''hash''"
      | (o) "ty \<noteq> ''string''" "ty \<noteq> ''list''" "ty \<noteq> ''hash''"
      by blast
    then show ?thesis
    proof cases
      case s
      obtain x \<sigma>2 where x: "get ec key True \<sigma>1 = (x, \<sigma>2)" by (cases "get ec key True \<sigma>1")
      from assms s x have "x = Inr (projr x) \<and> \<sigma>2 = \<sigma>' \<and> new = [JObj [(key, projr x)]]"
        by (cases x) (simp_all only: getAll_loop_step [OF ty], simp_all add: resolve_def)
      with ty s x show ?thesis by simp
    next
      case l
      obtain x \<sigma>2 where x: "listGet ec key 0 (- 1) True \<sigma>1 = (x, \<sigma>2)"
        by (cases "listGet ec key 0 (- 1) True \<sigma>1")
      from assms l x have "x = Inr (projr x) \<and> \<sigma>2 = \<sigma>' \<and> new = [JObj [(key, JArr (projr x))]]"
        by (cases x) (simp_all only: getAll_loop_step [OF ty], simp_all add: resolve_def)
      with ty l x show ?thesis by simp
    next
      case h
      obtain x \<sigma>2 where x: "hashGetAll ec key True \<sigma>1 = (x, \<sigma>2)"
        by (cases "hashGetAll ec key True \<sigma>1")
      from assms h x have "x = Inr (projr x) \<and> \<sigma>2 = \<sigma>' \<and> new = [JObj [(key, JObj (projr x))]]"
        by (cases x) (simp_all only: getAll_loop_step [OF ty], simp_all add: resolve_def)
      with ty h x show ?thesis by simp
    next
      case o
      from assms o have "new = []"
        by (simp_all only: getAll_loop_step [OF ty]) (simp add: resolve_def)
      with ty o show ?thesis by simp
    qed
  qed
qed

lemma getAll_loop_Cons:
  "getAll_loop ec (key # keys) [] \<sigma> =
     (case getAll_loop ec [key] [] \<sigma> of
        (Inl e, \<sigma>') \<Rightarrow> (Inl e, \<sigma>')
      | (Inr new, \<sigma>') \<Rightarrow> getAll_loop ec keys new \<sigma>')"
  using getAll_loop_append [of ec "[key]" keys "[]" \<sigma>] by simp

lemma getAll_state_0: "getAll_state ec keys \<sigma> 0 = \<sigma>"
  by (simp add: getAll_state_def resolve_def)

lemma getAll_state_Suc:
  assumes "getAll_loop ec [key] [] \<sigma> = (Inr new, \<sigma>')"
  shows "getAll_state ec (key # keys) \<sigma> (Suc i) = getAll_state ec keys \<sigma>' i"
proof -
  have "getAll_loop ec (key # take i keys) [] \<sigma> = getAll_loop ec (take i keys) new \<sigma>'"
    using assms by (simp only: getAll_loop_Cons [of ec key "take i keys" \<sigma>]) simp
  then have "snd (getAll_loop ec (key # take i keys) [] \<sigma>) = snd (getAll_loop ec (take i keys) [] \<sigma>')"
    using getAll_loop_acc [of ec "take i keys" new \<sigma>']
    by (simp split: prod.splits sum.splits)
  then show ?thesis by (simp add: getAll_state_def)
qed

lemma getAll_type_0:
  "getAll_type ec (key # keys) \<sigma> 0 = c_type (client ec) key \<sigma>"
  by (simp add: getAll_type_def getAll_state_0)

lemma getAll_type_Suc:
  assumes "getAll_loop ec [key] [] \<sigma> = (Inr new, \<sigma>')"
  shows "getAll_type ec (key # keys) \<sigma> (Suc i) = getAll_type ec keys \<sigma>' i"
  by (simp add: getAll_type_def getAll_state_Suc [OF assms])

lemma upt_0_Suc: "[0..<Suc n] = 0 # map Suc [0..<n]"
  by (simp add: upt_conv_Cons map_Suc_upt del: upt_Suc)

lemma getAll_loop_records:
  "getAll_loop ec keys [] \<sigma> = (Inr recs, \<sigma>') \<Longrightarrow>
     list_all2 (\<lambda>i r.
         (fst (getAll_type ec keys \<sigma> i) = Inr ''string''
            \<and> (\<exists>v. fst (get ec (keys ! i) True (snd (getAll_type ec keys \<sigma> i))) = Inr v
                   \<and> r = JObj [(keys ! i, v)]))
       \<or> (fst (getAll_type ec keys \<sigma> i) = Inr ''list''
            \<and> (\<exists>vs. fst (listGet ec (keys ! i) 0 (- 1) True (snd (getAll_type ec keys \<sigma> i))) = Inr vs
                   \<and> r = JObj [(keys ! i, JArr vs)]))
       \<or> (fst (getAll_type ec keys \<sigma> i) = Inr ''hash''
            \<and> (\<exists>h. fst (hashGetAll ec (keys ! i) True (snd (getAll_type ec keys \<sigma> i))) = Inr h
                   \<and> r = JObj [(keys ! i, JObj h)])))
       (filter (\<lambda>i. fst (getAll_type ec keys \<sigma> i) \<in> {Inr ''string'', Inr ''list'', Inr ''hash''})
          [0..<length keys])
       recs"
proof (induction keys arbitrary: \<sigma> recs)
  case Nil
  then show ?case by (simp add: resolve_def)
next
  case (Cons key keys)
  let ?R = "\<lambda>keys \<sigma> i r.
         (fst (getAll_type ec keys \<sigma> i) = Inr ''string''
            \<and> (\<exists>v. fst (get ec (keys ! i) True (snd (getAll_type ec keys \<sigma> i))) = Inr v
                   \<and> r = JObj [(keys ! i, v)]))
       \<or> (fst (getAll_type ec keys \<sigma> i) = Inr ''list''
            \<and> (\<exists>vs. fst (listGet ec (keys ! i) 0 (- 1) True (snd (getAll_type ec keys \<sigma> i))) = Inr vs
                   \<and> r = JObj [(keys ! i, JArr vs)]))
       \<or> (fst (getAll_type ec keys \<sigma> i) = Inr ''hash''
            \<and> (\<exists>h. fst (hashGetAll ec (keys ! i) True (snd (getAll_type ec keys \<sigma> i))) = Inr h
                   \<and> r = JObj [(keys ! i, JObj h)]))"
  let ?Q = "\<lambda>keys \<sigma> i.
       fst (getAll_type ec keys \<sigma> i) \<in> {Inr ''string'', Inr ''list'', Inr ''hash''}"
  obtain x \<sigma>a where x: "getAll_loop ec [key] [] \<sigma> = (x, \<sigma>a)"
    by (cases "getAll_loop ec [key] [] \<sigma>")
  from Cons.prems x obtain new where new: "x = Inr new"
    by (cases x) (simp_all only: getAll_loop_Cons [of ec key keys \<sigma>], simp_all)
  with x have single: "getAll_loop ec [key] [] \<sigma> = (Inr new, \<sigma>a)" by simp
  with Cons.prems have "getAll_loop ec keys new \<sigma>a = (Inr recs, \<sigma>')"
    by (simp only: getAll_loop_Cons [of ec key keys \<sigma>]) simp
  then obtain rest where rest: "getAll_loop ec keys [] \<sigma>a = (Inr rest, \<sigma>')"
    and recs: "recs = new @ rest"
    using getAll_loop_acc [of ec keys new \<sigma>a]
    by (cases "getAll_loop ec keys [] \<sigma>a") (auto split: sum.splits)
  have ih: "list_all2 (?R keys \<sigma>a) (filter (?Q keys \<sigma>a) [0..<length keys]) rest"
    by (rule Cons.IH [OF rest])
  have shiftR: "?R (key # keys) \<sigma> (Suc i) r = ?R keys \<sigma>a i r" for i r
    by (simp only: getAll_type_Suc [OF single] nth_Cons_Suc)
  have shiftQ: "?Q (key # keys) \<sigma> (Suc i) = ?Q keys \<sigma>a i" for i
    by (simp only: getAll_type_Suc [OF single])
  have tail: "list_all2 (?R (key # keys) \<sigma>)
       (filter (?Q (key # keys) \<sigma>) (map Suc [0..<length keys])) rest"
    using ih by (simp only: filter_map list_all2_map1 comp_def shiftR shiftQ)
  have t0: "getAll_type ec (key # keys) \<sigma> 0 = c_type (client ec) key \<sigma>"
    by (rule getAll_type_0)
  have idx: "[0..<length (key # keys)] = 0 # map Suc [0..<length keys]"
    by (simp only: list.size upt_0_Suc) (simp add: upt_0_Suc del: upt_Suc)
  have head: "(\<exists>r. new = [r] \<and> ?Q (key # keys) \<sigma> 0 \<and> ?R (key # keys) \<sigma> 0 r)
      \<or> (new = [] \<and> \<not> ?Q (key # keys) \<sigma> 0)"
    unfolding t0 nth_Cons_0
    using getAll_loop_single [OF single] by (elim disjE conjE exE) simp_all
  then consider (one) r where "new = [r]" "?Q (key # keys) \<sigma> 0" "?R (key # keys) \<sigma> 0 r"
    | (none) "new = []" "\<not> ?Q (key # keys) \<sigma> 0"
    by blast
  then show ?case
  proof cases
    case one
    have "list_all2 (?R (key # keys) \<sigma>)
       (0 # filter (?Q (key # keys) \<sigma>) (map Suc [0..<length keys])) (r # rest)"
      using one(3) tail by (simp only: list_all2_Cons)
    with one(1,2) recs show ?thesis by (simp only: idx filter.simps, simp?)
  next
    case none
    with recs tail show ?thesis by (simp only: idx filter.simps, simp?)
  qed
qed

lemma getAll_loop_single_resolves:
  assumes t: "fst (c_type (client ec) key \<sigma>) = Inr ty"
    and s: "ty = ''string'' \<longrightarrow>
              (\<exists>v. fst (get ec key True (snd (c_type (client ec) key \<sigma>))) = Inr v)"
    and l: "ty = ''list'' \<longrightarrow>
              (\<exists>vs. fst (listGet ec key 0 (- 1) True (snd (c_type (client ec) key \<sigma>))) = Inr vs)"
    and h: "ty = ''hash'' \<longrightarrow>
              (\<exists>h. fst (hashGetAll ec key True (snd (c_type (client ec) key \<sigma>))) = Inr h)"
  shows "\<exists>new \<sigma>'. getAll_loop ec [key] [] \<sigma> = (Inr new, \<sigma>')"
proof -
  obtain \<sigma>1 where ty: "c_type (client ec) key \<sigma> = (Inr ty, \<sigma>1)"
    using t by (cases "c_type (client ec) key \<sigma>") simp
  consider (s) "ty = ''string''" | (l) "ty = ''list''" | (h) "ty = ''hash''"
    | (o) "ty \<noteq> ''string''" "ty \<noteq> ''list''" "ty \<noteq> ''hash''"
    by blast
  then show ?thesis
  proof cases
    case s
    with assms(2) ty obtain v \<sigma>2 where "get ec key True \<sigma>1 = (Inr v, \<sigma>2)"
      by (cases "get ec key True \<sigma>1") auto
    with s show ?thesis
      by (simp only: getAll_loop_step [OF ty]) (simp add: resolve_def)
  next
    case l
    with assms(3) ty obtain v \<sigma>2 where "listGet ec key 0 (- 1) True \<sigma>1 = (Inr v, \<sigma>2)"
      by (cases "listGet ec key 0 (- 1) True \<sigma>1") auto
    with l show ?thesis
      by (simp only: getAll_loop_step [OF ty]) (simp add: resolve_def)
  next
    case h
    with assms(4) ty obtain v \<sigma>2 where "hashGetAll ec key True \<sigma>1 = (Inr v, \<sigma>2)"
      by (cases "hashGetAll ec key True \<sigma>1") auto
    with h show ?thesis
      by (simp only: getAll_loop_step [OF ty]) (simp add: resolve_def)
  next
    case o
    then show ?thesis
      by (simp only: getAll_loop_step [OF ty]) (simp add: resolve_def)
  qed
qed

lemma getAll_loop_resolves:
  "(\<forall>i<length keys. \<exists>ty. fst (getAll_type ec keys \<sigma> i) = Inr ty
        \<and> (ty = ''string'' \<longrightarrow>
             (\<exists>v. fst (get ec (keys ! i) True (snd (getAll_type ec keys \<sigma> i))) = Inr v))
        \<and> (ty = ''list'' \<longrightarrow>
             (\<exists>vs. fst (listGet ec (keys ! i) 0 (- 1) True (snd (getAll_type ec keys \<sigma> i))) = Inr vs))
        \<and> (ty = ''hash'' \<longrightarrow>
             (\<exists>h. fst (hashGetAll ec (keys ! i) True (snd (getAll_type ec keys \<sigma> i))) = Inr h)))
   \<Longrightarrow> \<exists>recs \<sigma>'. getAll_loop ec keys [] \<sigma> = (Inr recs, \<sigma>')"
proof (induction keys arbitrary: \<sigma>)
  case Nil
  then show ?case by (simp add: resolve_def)
next
  case (Cons key keys)
  let ?G = "\<lambda>keys \<sigma> i. \<exists>ty. fst (getAll_type ec keys \<sigma> i) = Inr ty
        \<and> (ty = ''string'' \<longrightarrow>
             (\<exists>v. fst (get ec (keys ! i) True (snd (getAll_type ec keys \<sigma> i))) = Inr v))
        \<and> (ty = ''list'' \<longrightarrow>
             (\<exists>vs. fst (listGet ec (keys ! i) 0 (- 1) True (snd (getAll_type ec keys \<sigma> i))) = Inr vs))
        \<and> (ty = ''hash'' \<longrightarrow>
             (\<exists>h. fst (hashGetAll ec (keys ! i) True (snd (getAll_type ec keys \<sigma> i))) = Inr h))"
  from Cons.prems have all: "?G (key # keys) \<sigma> i" if "i < Suc (length keys)" for i
    using that by simp
  from all [of 0] have "?G (key # keys) \<sigma> 0" by simp
  then obtain ty where
    "fst (c_type (client ec) key \<sigma>) = Inr ty"
    "ty = ''string'' \<longrightarrow> (\<exists>v. fst (get ec key True (snd (c_type (client ec) key \<sigma>))) = Inr v)"
    "ty = ''list'' \<longrightarrow>
       (\<exists>vs. fst (listGet ec key 0 (- 1) True (snd (c_type (client ec) key \<sigma>))) = Inr vs)"
    "ty = ''hash'' \<longrightarrow> (\<exists>h. fst (hashGetAll ec key True (snd (c_type (client ec) key \<sigma>))) = Inr h)"
    unfolding getAll_type_0 nth_Cons_0 by blast
  from getAll_loop_single_resolves [OF this] obtain new \<sigma>a where
    single: "getAll_loop ec [key] [] \<sigma> = (Inr new, \<sigma>a)" by blast
  have "?G keys \<sigma>a i" if "i < length keys" for i
  proof -
    from that have "?G (key # keys) \<sigma> (Suc i)" by (intro all) simp
    then show ?thesis by (simp only: getAll_type_Suc [OF single] nth_Cons_Suc)
  qed
  then have "\<forall>i<length keys. ?G keys \<sigma>a i" by blast
  from Cons.IH [OF this] obtain rest \<sigma>' where "getAll_loop ec keys [] \<sigma>a = (Inr rest, \<sigma>')"
    by blast
  then have "getAll_loop ec keys new \<sigma>a = (Inr (new @ rest), \<sigma>')"
    using getAll_loop_acc [of ec keys new \<sigma>a] by simp
  with single show ?case
    by (simp only: getAll_loop_Cons [of ec key keys \<sigma>]) simp
qed

text \<open>
  Claim C7. \<^verbatim>\<open>getAll()\<close> enumerates the keys with the pattern \<^verbatim>\<open>*\<close>. When there is none
  it fails with status 404 (message \<^verbatim>\<open>No keys found\<close>). Otherwise the loop queries the
  type of each key in turn (\<open>getAll_type ec keys \<sigma>1 i\<close> is the reply for the key of index
  \<open>i\<close>, with the state the query leaves). When the call resolves, its records are, in the
  order of the enumeration, exactly one single-entry record for each key whose type is
  \<^verbatim>\<open>string\<close> (the value of \<^verbatim>\<open>get\<close> with parsing), \<^verbatim>\<open>list\<close> (the value of \<^verbatim>\<open>listGet\<close> over
  \<open>0\<close> to \<open>-1\<close> with parsing) or \<^verbatim>\<open>hash\<close> (the value of \<^verbatim>\<open>hashGetAll\<close> with parsing), and
  no record for a key of any other type. The call does resolve when every type query
  replies and every such read succeeds.
\<close>

theorem getAll_snapshot:
  assumes "c_keys (client ec) ''*'' \<sigma> = (Inr keys, \<sigma>1)"
  shows "(keys = [] \<longrightarrow> getAll ec \<sigma> = (Inl (HttpError ''No keys found'' 404 None), \<sigma>1))
   \<and> (keys \<noteq> [] \<and> fst (getAll ec \<sigma>) = Inr recs \<longrightarrow>
        list_all2 (\<lambda>i r.
            (fst (getAll_type ec keys \<sigma>1 i) = Inr ''string''
               \<and> (\<exists>v. fst (get ec (keys ! i) True (snd (getAll_type ec keys \<sigma>1 i))) = Inr v
                      \<and> r = JObj [(keys ! i, v)]))
          \<or> (fst (getAll_type ec keys \<sigma>1 i) = Inr ''list''
               \<and> (\<exists>vs. fst (listGet ec (keys ! i) 0 (- 1) True (snd (getAll_type ec keys \<sigma>1 i))) = Inr vs
                      \<and> r = JObj [(keys ! i, JArr vs)]))
          \<or> (fst (getAll_type ec keys \<sigma>1 i) = Inr ''hash''
               \<and> (\<exists>h. fst (hashGetAll ec (keys ! i) True (snd (getAll_type ec keys \<sigma>1 i))) = Inr h
                      \<and> r = JObj [(keys ! i, JObj h)])))
          (filter (\<lambda>i. fst (getAll_type ec keys \<sigma>1 i) \<in> {Inr ''string'', Inr ''list'', Inr ''hash''})
             [0..<length keys])
          recs)
   \<and> (keys \<noteq> []
        \<and> (\<forall>i<length keys. \<exists>ty. fst (getAll_type ec keys \<sigma>1 i) = Inr ty
              \<and> (ty = ''string'' \<longrightarrow>
                   (\<exists>v. fst (get ec (keys ! i) True (snd (getAll_type ec keys \<sigma>1 i))) = Inr v))
              \<and> (ty = ''list'' \<longrightarrow>
                   (\<exists>vs. fst (listGet ec (keys ! i) 0 (- 1) True (snd (getAll_type ec keys \<sigma>1 i))) = Inr vs))
              \<and> (ty = ''hash'' \<longrightarrow>
                   (\<exists>h. fst (hashGetAll ec (keys ! i) True (snd (getAll_type ec keys \<sigma>1 i))) = Inr h)))
      \<longrightarrow> (\<exists>recs. fst (getAll ec \<sigma>) = Inr recs))"
proof (intro conjI impI)
  assume "keys = []"
  with assms show "getAll ec \<sigma> = (Inl (HttpError ''No keys found'' 404 None), \<sigma>1)"
    by (simp add: getAll_def async_defs)
next
  assume h: "keys \<noteq> [] \<and> fst (getAll ec \<sigma>) = Inr recs"
  obtain x \<sigma>2 where loop: "getAll_loop ec keys [] \<sigma>1 = (x, \<sigma>2)"
    by (cases "getAll_loop ec keys [] \<sigma>1")
  with h getAll_unfold [OF assms] have "x = Inr recs"
    by (cases x) (simp_all split: if_splits)
  with loop have "getAll_loop ec keys [] \<sigma>1 = (Inr recs, \<sigma>2)" by simp
  then show "list_all2 (\<lambda>i r.
            (fst (getAll_type ec keys \<sigma>1 i) = Inr ''string''
               \<and> (\<exists>v. fst (get ec (keys ! i) True (snd (getAll_type ec keys \<sigma>1 i))) = Inr v
                      \<and> r = JObj [(keys ! i, v)]))
          \<or> (fst (getAll_type ec keys \<sigma>1 i) = Inr ''list''
               \<and> (\<exists>vs. fst (listGet ec (keys ! i) 0 (- 1) True (snd (getAll_type ec keys \<sigma>1 i))) = Inr vs
                      \<and> r = JObj [(keys ! i, JArr vs)]))
          \<or> (fst (getAll_type ec keys \<sigma>1 i) = Inr ''hash''
               \<and> (\<exists>h. fst (hashGetAll ec (keys ! i) True (snd (getAll_type ec keys \<sigma>1 i))) = Inr h
                      \<and> r = JObj [(keys ! i, JObj h)])))
          (filter (\<lambda>i. fst (getAll_type ec keys \<sigma>1 i) \<in> {Inr ''string'', Inr ''list'', Inr ''hash''})
             [0..<length keys])
          recs"
    by (rule getAll_loop_records)
next
  assume h: "keys \<noteq> []
        \<and> (\<forall>i<length keys. \<exists>ty. fst (getAll_type ec keys \<sigma>1 i) = Inr ty
              \<and> (ty = ''string'' \<longrightarrow>
                   (\<exists>v. fst (get ec (keys ! i) True (snd (getAll_type ec keys \<sigma>1 i))) = Inr v))
              \<and> (ty = ''list'' \<longrightarrow>
                   (\<exists>vs. fst (listGet ec (keys ! i) 0 (- 1) True (snd (getAll_type ec keys \<sigma>1 i))) = Inr vs))
              \<and> (ty = ''hash'' \<longrightarrow>
                   (\<exists>h. fst (hashGetAll ec (keys ! i) True (snd (getAll_type ec keys \<sigma>1 i))) = Inr h)))"
  then obtain recs \<sigma>2 where "getAll_loop ec keys [] \<sigma>1 = (Inr recs, \<sigma>2)"
    using getAll_loop_resolves [of keys ec \<sigma>1] by blast
  with h show "\<exists>recs. fst (getAll ec \<sigma>) = Inr recs"
    using getAll_unfold [OF assms] by simp
qed

theorem getAll_snapshot_witness:
  "c_keys (client (facade mem_client)) ''*'' mixed_store
       = (Inr [''user'', ''queue'', ''board'', ''flags''], mixed_store)
   \<and> fst (getAll (facade mem_client) mixed_store)
       = Inr [JObj [(''user'', JObj [(''name'', JStr ''John'')])],
              JObj [(''queue'', JArr [JNum 42, JBool True])],
              JObj [(''flags'', JObj [(''on'', JBool True), (''off'', JNull)])]]
   \<and> getAll (facade mem_client) [] = (Inl (HttpError ''No keys found'' 404 None), [])"
proof -
  let ?ec = "facade mem_client"
  let ?keys = "[''user'', ''queue'', ''board'', ''flags'']"
  have k: "c_keys (client ?ec) ''*'' mixed_store = (Inr ?keys, mixed_store)"
    by (simp add: sample_defs)
  have n: "c_keys (client ?ec) ''*'' [] = (Inr [], [])"
    by (simp add: sample_defs)
  have st: "getAll_state ?ec ?keys mixed_store 0 = mixed_store"
    "getAll_state ?ec ?keys mixed_store (Suc 0) = mixed_store"
    "getAll_state ?ec ?keys mixed_store 2 = mixed_store"
    "getAll_state ?ec ?keys mixed_store 3 = mixed_store"
    by (simp_all add: getAll_state_def sample_defs prim_defs async_defs)
  have ty: "getAll_type ?ec ?keys mixed_store 0 = (Inr ''string'', mixed_store)"
    "getAll_type ?ec ?keys mixed_store (Suc 0) = (Inr ''list'', mixed_store)"
    "getAll_type ?ec ?keys mixed_store 2 = (Inr ''zset'', mixed_store)"
    "getAll_type ?ec ?keys mixed_store 3 = (Inr ''hash'', mixed_store)"
    by (simp_all add: getAll_type_def st) (simp_all add: sample_defs)
  have rd: "fst (get ?ec ''user'' True mixed_store) = Inr (JObj [(''name'', JStr ''John'')])"
    "fst (listGet ?ec ''queue'' 0 (- 1) True mixed_store) = Inr [JNum 42, JBool True]"
    "fst (hashGetAll ?ec ''flags'' True mixed_store) = Inr [(''on'', JBool True), (''off'', JNull)]"
    by (simp_all add: sample_defs prim_defs async_defs)
  have idx: "[0..<length ?keys] = [0, Suc 0, 2, 3]"
    by (simp add: upt_rec numeral_2_eq_2 numeral_3_eq_3)
  have all4: "(\<forall>i<length ?keys. P i) \<longleftrightarrow> P 0 \<and> P (Suc 0) \<and> P 2 \<and> P 3" for P
    by (auto simp: less_Suc_eq numeral_2_eq_2 numeral_3_eq_3)
  note t = getAll_snapshot [OF k]
  have "\<exists>recs. fst (getAll ?ec mixed_store) = Inr recs"
    using t [of "[]", THEN conjunct2, THEN conjunct2] ty rd by (simp only: all4) simp
  then obtain recs where r: "fst (getAll ?ec mixed_store) = Inr recs" ..
  have "recs = [JObj [(''user'', JObj [(''name'', JStr ''John'')])],
              JObj [(''queue'', JArr [JNum 42, JBool True])],
              JObj [(''flags'', JObj [(''on'', JBool True), (''off'', JNull)])]]"
    using t [of recs, THEN conjunct2, THEN conjunct1] r ty rd
    by (simp only: idx) (simp add: list_all2_Cons1)
  moreover have "getAll ?ec [] = (Inl (HttpError ''No keys found'' 404 None), [])"
    using getAll_snapshot [OF n, of "[]"] by simp
  ultimately show ?thesis using k r by simp
qed

section \<open>Writing a value and reading it back\<close>

lemma set_redis_resolved:
  assumes "set_redis ec key v ttl \<sigma> = (Inr (), \<sigma>1)"
  shows "\<exists>s. JSON_stringify ec v = Some s
           \<and> c_set (client ec) key s
                 (case ttl of None \<Rightarrow> None | Some t \<Rightarrow> if t = 0 then None else Some t) \<sigma>
               = (Inr (), \<sigma>1)"
proof (cases "JSON_stringify ec v")
  case None
  with assms show ?thesis by (simp add: set_redis_def stringify_def async_defs)
next
  case (Some s)
  let ?opts = "case ttl of None \<Rightarrow> None | Some t \<Rightarrow> if t = 0 then None else Some t"
  obtain r \<sigma>' where c: "c_set (client ec) key s ?opts \<sigma> = (r, \<sigma>')"
    by (cases "c_set (client ec) key s ?opts \<sigma>")
  show ?thesis
  proof (cases r)
    case (Inl msg)
    with assms Some c show ?thesis by (simp add: set_redis_def stringify_def async_defs)
  next
    case (Inr u)
    with assms Some c show ?thesis by (simp add: set_redis_def stringify_def async_defs)
  qed
qed

lemma get_parsed_resolved:
  assumes "get ec key True \<sigma> = (Inr w, \<sigma>')"
  shows "\<exists>r. c_get (client ec) key \<sigma> = (Inr (Some r), \<sigma>') \<and> JSON_parse ec r = Some w"
proof -
  obtain x \<sigma>1 where c: "c_get (client ec) key \<sigma> = (x, \<sigma>1)"
    by (cases "c_get (client ec) key \<sigma>")
  show ?thesis
  proof (cases x)
    case (Inl msg)
    with assms c show ?thesis by (simp add: get_def async_defs)
  next
    case (Inr reply)
    show ?thesis
    proof (cases reply)
      case None
      with assms c Inr show ?thesis by (simp add: get_def async_defs)
    next
      case (Some r)
      with assms c Inr show ?thesis
        by (cases "JSON_parse ec r") (simp_all add: get_def async_defs parse_json_def)
    qed
  qed
qed

text \<open>
  Claim C4. Let \<open>v\<close> be a value that the codec round-trips (\<^verbatim>\<open>JSON.parse\<close> of its
  \<^verbatim>\<open>JSON.stringify\<close> text is \<open>v\<close>), on a store whose \<^verbatim>\<open>get\<close>, when it replies a string right
  after a successful \<^verbatim>\<open>set\<close> of the same key, replies the string that was set. Then a
  successful \<^verbatim>\<open>set(key, v)\<close> followed by a successful \<^verbatim>\<open>get(key, true)\<close> returns \<open>v\<close>.
\<close>

theorem set_get_roundtrip:
  assumes codec: "\<And>s. JSON_stringify ec v = Some s \<Longrightarrow> JSON_parse ec s = Some v"
    and store: "\<And>s opts r. fst (c_set (client ec) key s opts \<sigma>) = Inr () \<Longrightarrow>
                  fst (c_get (client ec) key (snd (c_set (client ec) key s opts \<sigma>))) = Inr (Some r)
                  \<Longrightarrow> r = s"
    and written: "fst (set_redis ec key v ttl \<sigma>) = Inr ()"
    and read: "\<exists>w. fst (get ec key True (snd (set_redis ec key v ttl \<sigma>))) = Inr w"
  shows "fst (get ec key True (snd (set_redis ec key v ttl \<sigma>))) = Inr v"
proof -
  obtain \<sigma>1 where w: "set_redis ec key v ttl \<sigma> = (Inr (), \<sigma>1)"
    using written by (cases "set_redis ec key v ttl \<sigma>") simp
  from read w obtain x \<sigma>2 where rd: "get ec key True \<sigma>1 = (Inr x, \<sigma>2)"
    by (cases "get ec key True \<sigma>1") auto
  from set_redis_resolved [OF w] obtain s opts where
    s: "JSON_stringify ec v = Some s" and c: "c_set (client ec) key s opts \<sigma> = (Inr (), \<sigma>1)"
    by blast
  from get_parsed_resolved [OF rd] obtain r where
    g: "c_get (client ec) key \<sigma>1 = (Inr (Some r), \<sigma>2)" and p: "JSON_parse ec r = Some x"
    by blast
  from store [of s opts r] c g have "r = s" by simp
  with codec [OF s] p have "x = v" by simp
  with w rd show ?thesis by simp
qed

theorem set_get_roundtrip_witness:
  "fst (set_redis (facade mem_client) ''test:key1'' (JObj [(''name'', JStr ''John'')]) None users_store)
     = Inr ()
   \<and> fst (get (facade mem_client) ''test:key1'' True
           (snd (set_redis (facade mem_client) ''test:key1'' (JObj [(''name'', JStr ''John'')]) None
                  users_store)))
     = Inr (JObj [(''name'', JStr ''John'')])"
proof -
  let ?ec = "facade mem_client"
  let ?v = "JObj [(''name'', JStr ''John'')]"
  have codec: "\<And>s. JSON_stringify ?ec ?v = Some s \<Longrightarrow> JSON_parse ?ec s = Some ?v"
    by (auto simp: facade_def sample_json_def)
  have store: "\<And>s opts r. fst (c_set (client ?ec) ''test:key1'' s opts users_store) = Inr () \<Longrightarrow>
      fst (c_get (client ?ec) ''test:key1''
             (snd (c_set (client ?ec) ''test:key1'' s opts users_store))) = Inr (Some r)
      \<Longrightarrow> r = s"
    by (simp add: facade_def mem_client_def)
  have written: "fst (set_redis ?ec ''test:key1'' ?v None users_store) = Inr ()"
    by (simp add: sample_defs prim_defs async_defs)
  have read: "\<exists>w. fst (get ?ec ''test:key1'' True
                  (snd (set_redis ?ec ''test:key1'' ?v None users_store))) = Inr w"
    by (simp add: sample_defs prim_defs async_defs)
  from set_get_roundtrip [of ?ec ?v "''test:key1''" users_store None, OF codec store written read]
    written
  show ?thesis by simp
qed

end
